theory Spec2Isabelle
  imports Main "HOL-Library.AList"
begin

section \<open>typed-worker: the correlation layer of \<^verbatim>\<open>createTypedWorker\<close>\<close>

text \<open>
  The repository holds three revisions of \<^verbatim>\<open>index.ts\<close>:
  \<^item> \<^verbatim>\<open>src/src/index.ts\<close> (called \<^verbatim>\<open>src/index.ts\<close> below): calls and graceful
    termination only;
  \<^item> \<^verbatim>\<open>src/unnamed/part_000\<close>, the revision with \<^verbatim>\<open>onWSE\<close>/\<^verbatim>\<open>offWSE\<close>/\<^verbatim>\<open>clearWSE\<close>
    (discriminator \<^verbatim>\<open>worker-sent-event\<close>), whose definitions carry the suffix \<open>_wse\<close>
    here;
  \<^item> \<^verbatim>\<open>src/unnamed/part_001\<close>, the revision with
    \<^verbatim>\<open>onEvent\<close>/\<^verbatim>\<open>offEvent\<close>/\<^verbatim>\<open>clearEvents\<close> (discriminator
    \<^verbatim>\<open>worker-send-event\<close>), whose definitions carry the suffix \<open>_evt\<close> here.

  \<^verbatim>\<open>getWorker\<close>, \<^verbatim>\<open>terminateWorker\<close>, \<^verbatim>\<open>checkTerminateComplete\<close>, \<^verbatim>\<open>onTaskComplete\<close>,
  \<^verbatim>\<open>terminate\<close>, \<^verbatim>\<open>call\<close> and the proxy's \<^verbatim>\<open>set\<close> trap are the same text in all three and
  are modelled once.

  The closure variables of \<^verbatim>\<open>createTypedWorker\<close> become the fields of a record that every
  function takes and returns. What the closure does to the outside world is recorded in the
  same record: the promises it created and their settlement, the \<^verbatim>\<open>Worker\<close> objects the
  factory returned, the messages posted, the lines written with \<^verbatim>\<open>console.error\<close>, and
  the listener invocations.
\<close>

subsection \<open>Values, promises, messages\<close>

text \<open>
  \<open>'v\<close> is the type of structured-clone data (payloads, arguments, event objects).
  \<open>Error msg\<close> is \<^verbatim>\<open>new Error(msg)\<close>; \<open>Undefined\<close> is the argument of a bare \<^verbatim>\<open>resolve()\<close>.
\<close>

datatype 'v jsval = Undefined | Val 'v | Error string

datatype 'v pstate = Pending | Fulfilled "'v jsval" | Rejected "'v jsval"

text \<open>
  The \<^verbatim>\<open>resolve\<close> and \<^verbatim>\<open>reject\<close> functions handed to a promise executor, named by the
  promise they belong to (its index in the field \<open>promises\<close>).
\<close>

datatype cont = ResolveFn nat | RejectFn nat

record entry =
  resolve :: cont
  reject :: cont

record 'v MainMessage =
  mid :: nat
  mname :: string
  margs :: "'v list"

text \<open>
  An inbound message is a response \<^verbatim>\<open>{id, name, payload, error?}\<close> (an absent \<^verbatim>\<open>error\<close> is
  \<open>False\<close>) or an event \<^verbatim>\<open>{type, name, payload}\<close>, which has no \<^verbatim>\<open>id\<close>.
\<close>

datatype 'v WorkerMessage =
    Response nat string 'v bool
  | EventMessage string string 'v

record WorkerObj =
  listening :: bool
  terminated :: bool

record 'v closure =
  cworker :: nat
  cname :: string
  ctransfer :: "'v list option"

record 'v chan =
  worker :: "nat option"
  terminateResolve :: "cont option"
  terminatePromise :: "nat option"
  queue :: "(nat \<times> entry) list"
  id_ctr :: nat
  handles :: "(string \<times> nat list) list"
  promises :: "'v pstate list"
  workers :: "WorkerObj list"
  posted :: "(nat \<times> 'v MainMessage \<times> 'v list option) list"
  console :: "(string \<times> 'v jsval) list"
  delivered :: "(nat \<times> 'v) list"

text \<open>
  \<open>queue\<close> and \<open>handles\<close> are JavaScript \<^verbatim>\<open>Map\<close>s, kept as association lists in insertion
  order: \<^verbatim>\<open>set\<close> is \<^const>\<open>AList.update\<close>, \<^verbatim>\<open>delete\<close> is \<^const>\<open>AList.delete\<close>, \<^verbatim>\<open>get\<close>
  and \<^verbatim>\<open>has\<close> are \<^const>\<open>map_of\<close>. A \<^verbatim>\<open>Set\<close> of listeners is a list of listener references
  without repetition, in insertion order. \<open>id_ctr\<close> is the variable \<^verbatim>\<open>id\<close>, a JavaScript
  number that \<^verbatim>\<open>++id\<close> increments exactly below \<open>2^53\<close>; it is a natural number here.
  The state of \<^verbatim>\<open>createTypedWorker\<close> right after it returns:
\<close>

definition init :: "'v chan" where
  "init = \<lparr>worker = None, terminateResolve = None, terminatePromise = None, queue = [],
           id_ctr = 0, handles = [], promises = [], workers = [], posted = [],
           console = [], delivered = []\<rparr>"

subsection \<open>Promises\<close>

text \<open>A promise is settled once; later calls of its \<^verbatim>\<open>resolve\<close> or \<^verbatim>\<open>reject\<close> do nothing.\<close>

definition settle :: "nat \<Rightarrow> 'v pstate \<Rightarrow> 'v chan \<Rightarrow> 'v chan" where
  "settle p st s =
     (if p < length (promises s) \<and> promises s ! p = Pending
      then s\<lparr>promises := (promises s)[p := st]\<rparr> else s)"

fun invoke :: "cont \<Rightarrow> 'v jsval \<Rightarrow> 'v chan \<Rightarrow> 'v chan" where
  "invoke (ResolveFn p) v s = settle p (Fulfilled v) s"
| "invoke (RejectFn p) v s = settle p (Rejected v) s"

text \<open>\<^verbatim>\<open>new Promise(executor)\<close>: the new promise is the next index.\<close>

definition newPromise :: "'v chan \<Rightarrow> nat \<times> 'v chan" where
  "newPromise s = (length (promises s), s\<lparr>promises := promises s @ [Pending]\<rparr>)"

subsection \<open>Channel lifecycle\<close>

definition generateId :: "'v chan \<Rightarrow> nat \<times> 'v chan" where
  "generateId s = (id_ctr s + 1, s\<lparr>id_ctr := id_ctr s + 1\<rparr>)"

text \<open>\<^verbatim>\<open>setupWorker()\<close> is taken to return a new \<^verbatim>\<open>Worker\<close> object on every call.\<close>

definition getWorker :: "'v chan \<Rightarrow> nat \<times> 'v chan" where
  "getWorker s =
     (case worker s of
        None \<Rightarrow>
          (let w = length (workers s) in
           (w, s\<lparr>workers := workers s @ [\<lparr>listening = True, terminated = False\<rparr>],
                  worker := Some w\<rparr>))
      | Some w \<Rightarrow> (w, s))"

definition terminateWorker :: "'v chan \<Rightarrow> 'v chan" where
  "terminateWorker s =
     (case worker s of
        None \<Rightarrow> s
      | Some w \<Rightarrow>
          s\<lparr>workers := (workers s)[w := \<lparr>listening = False, terminated = True\<rparr>],
            worker := None\<rparr>)"

definition checkTerminateComplete :: "'v chan \<Rightarrow> 'v chan" where
  "checkTerminateComplete s =
     (case terminatePromise s of
        None \<Rightarrow> s
      | Some tp \<Rightarrow>
          (case terminateResolve s of
             None \<Rightarrow> s
           | Some r \<Rightarrow>
               if length (queue s) = 0
               then invoke r Undefined
                      (terminateWorker
                         (s\<lparr>terminateResolve := None, terminatePromise := None, id_ctr := 0\<rparr>))
               else s))"

definition onTaskComplete :: "'v chan \<Rightarrow> 'v chan" where
  "onTaskComplete s = checkTerminateComplete s"

subsection \<open>Inbound messages and errors, \<^verbatim>\<open>src/index.ts\<close>\<close>

text \<open>
  The response branch is shared by the three revisions. An event message has no \<^verbatim>\<open>id\<close>, so
  \<^verbatim>\<open>queue.has(undefined)\<close> is false and \<^verbatim>\<open>src/index.ts\<close> returns.
\<close>

definition handleResponse :: "nat \<Rightarrow> 'v \<Rightarrow> bool \<Rightarrow> 'v chan \<Rightarrow> 'v chan" where
  "handleResponse i payload err s =
     (case map_of (queue s) i of
        None \<Rightarrow> s
      | Some e \<Rightarrow>
          (let s1 = s\<lparr>queue := AList.delete i (queue s)\<rparr>;
               s2 = (if err then invoke (reject e) (Val payload) s1
                     else invoke (resolve e) (Val payload) s1)
           in onTaskComplete s2))"

fun handleMessage :: "'v WorkerMessage \<Rightarrow> 'v chan \<Rightarrow> 'v chan" where
  "handleMessage (Response i n payload err) s = handleResponse i payload err s"
| "handleMessage (EventMessage t n payload) s = s"

definition rejectAll :: "'v \<Rightarrow> entry list \<Rightarrow> 'v chan \<Rightarrow> 'v chan" where
  "rejectAll e es s = fold (\<lambda>en. invoke (reject en) (Val e)) es s"

definition handleError :: "'v \<Rightarrow> 'v chan \<Rightarrow> 'v chan" where
  "handleError e s =
     (let s1 = s\<lparr>console := console s @ [(''Worker encountered an error'', Val e)]\<rparr>;
          s2 = rejectAll e (map snd (queue s1)) s1;
          s3 = s2\<lparr>queue := []\<rparr>
      in onTaskComplete s3)"

subsection \<open>\<^verbatim>\<open>terminate\<close> and \<^verbatim>\<open>call\<close>\<close>

text \<open>
  \<^verbatim>\<open>terminate\<close> is an \<^verbatim>\<open>async\<close> function without \<^verbatim>\<open>await\<close>: its body runs to the end
  within the call. \<open>Completed\<close> is the bare \<^verbatim>\<open>return\<close> (the promise returned is already
  fulfilled); \<open>Awaits p\<close> is \<^verbatim>\<open>return terminatePromise\<close> (the promise returned takes the
  outcome of promise \<open>p\<close>).
\<close>

datatype tresult = Completed | Awaits nat

definition terminate :: "'v chan \<Rightarrow> tresult \<times> 'v chan" where
  "terminate s =
     (case worker s of
        None \<Rightarrow> (Completed, s)
      | Some w \<Rightarrow>
          (case terminatePromise s of
             Some tp \<Rightarrow> (Awaits tp, s)
           | None \<Rightarrow>
               if length (queue s) = 0 then (Completed, terminateWorker s)
               else
                 (let (p, s1) = newPromise s;
                      s2 = s1\<lparr>terminateResolve := Some (ResolveFn p)\<rparr>;
                      s3 = s2\<lparr>terminatePromise := Some p\<rparr>
                  in (Awaits p, s3))))"

text \<open>
  \<^verbatim>\<open>call(name, transfer)\<close> fetches the worker and returns a function; \<open>invoke_call\<close> is
  that function applied to its arguments. The arguments are taken to be cloneable, so
  \<^verbatim>\<open>postMessage\<close> does not throw. An empty transfer array is truthy and is passed on.
\<close>

definition call :: "string \<Rightarrow> 'v list option \<Rightarrow> 'v chan \<Rightarrow> 'v closure \<times> 'v chan" where
  "call n transfer s =
     (let (w, s1) = getWorker s
      in (\<lparr>cworker = w, cname = n, ctransfer = transfer\<rparr>, s1))"

definition terminating_msg :: string where
  "terminating_msg = ''Worker is terminating, cannot accept new tasks''"

definition invoke_call :: "'v closure \<Rightarrow> 'v list \<Rightarrow> 'v chan \<Rightarrow> nat \<times> 'v chan" where
  "invoke_call c as s =
     (let (p, s0) = newPromise s in
      case terminatePromise s0 of
        Some tp \<Rightarrow> (p, invoke (RejectFn p) (Error terminating_msg) s0)
      | None \<Rightarrow>
          (let (i, s1) = generateId s0;
               s2 = s1\<lparr>queue := AList.update i \<lparr>resolve = ResolveFn p, reject = RejectFn p\<rparr>
                                   (queue s1)\<rparr>;
               data = \<lparr>mid = i, mname = cname c, margs = as\<rparr>;
               s3 = s2\<lparr>posted := posted s2 @ [(cworker c, data, ctransfer c)]\<rparr>
           in (p, s3)))"

subsection \<open>The proxy\<close>

text \<open>
  What a property read returns: one of the functions of the closure, or the function that
  \<^verbatim>\<open>call(prop)\<close> returns. The \<^verbatim>\<open>get\<close> trap of \<^verbatim>\<open>src/index.ts\<close> and of the two revisions
  with events.
\<close>

datatype 'v member =
    TerminateFn | CallFn
  | OnWSEFn | OffWSEFn | ClearWSEFn
  | OnEventFn | OffEventFn | ClearEventsFn
  | ActionFn "'v closure"

definition proxy_get :: "string \<Rightarrow> 'v chan \<Rightarrow> 'v member \<times> 'v chan" where
  "proxy_get prop s =
     (if prop = ''terminate'' then (TerminateFn, s)
      else if prop = ''call'' then (CallFn, s)
      else (let (c, s1) = call prop None s in (ActionFn c, s1)))"

definition proxy_get_wse :: "string \<Rightarrow> 'v chan \<Rightarrow> 'v member \<times> 'v chan" where
  "proxy_get_wse prop s =
     (if prop = ''terminate'' then (TerminateFn, s)
      else if prop = ''call'' then (CallFn, s)
      else if prop = ''onWSE'' then (OnWSEFn, s)
      else if prop = ''offWSE'' then (OffWSEFn, s)
      else if prop = ''clearWSE'' then (ClearWSEFn, s)
      else (let (c, s1) = call prop None s in (ActionFn c, s1)))"

definition proxy_get_evt :: "string \<Rightarrow> 'v chan \<Rightarrow> 'v member \<times> 'v chan" where
  "proxy_get_evt prop s =
     (if prop = ''terminate'' then (TerminateFn, s)
      else if prop = ''call'' then (CallFn, s)
      else if prop = ''onEvent'' then (OnEventFn, s)
      else if prop = ''offEvent'' then (OffEventFn, s)
      else if prop = ''clearEvents'' then (ClearEventsFn, s)
      else (let (c, s1) = call prop None s in (ActionFn c, s1)))"

text \<open>
  The \<^verbatim>\<open>set\<close> trap ignores its arguments and throws. The result is the exception thrown
  (\<open>None\<close> would be a normal return) and the state it leaves.
\<close>

definition readonly_msg :: string where
  "readonly_msg = ''Cannot set properties on typed worker proxy''"

definition proxy_set :: "string \<Rightarrow> 'v jsval \<Rightarrow> 'v chan \<Rightarrow> 'v jsval option \<times> 'v chan" where
  "proxy_set prop v s = (Some (Error readonly_msg), s)"

text \<open>A call through the proxy, \<^verbatim>\<open>worker.name(...args)\<close> or \<^verbatim>\<open>worker.call(name, transfer)(...args)\<close>.\<close>

definition attempt :: "string \<Rightarrow> 'v list option \<Rightarrow> 'v list \<Rightarrow> 'v chan \<Rightarrow> nat \<times> 'v chan" where
  "attempt n transfer as s = (let (c, s1) = call n transfer s in invoke_call c as s1)"

subsection \<open>Listeners\<close>

text \<open>
  A listener is a function value, compared by reference; it is named by a number here.
  What a listener does when invoked is a parameter \<open>L\<close> of the dispatching functions:
  \<open>L h payload = None\<close> when listener \<open>h\<close> returns, \<open>Some x\<close> when it throws \<open>x\<close>.
  Listeners are taken not to call back into the channel while they are being dispatched.
  Every invocation is appended to the field \<open>delivered\<close>.
\<close>

definition set_add :: "nat \<Rightarrow> nat list \<Rightarrow> nat list" where
  "set_add h hs = (if h \<in> set hs then hs else hs @ [h])"

definition set_delete :: "nat \<Rightarrow> nat list \<Rightarrow> nat list" where
  "set_delete h hs = removeAll h hs"

subsection \<open>The revision with \<^verbatim>\<open>onWSE\<close>\<close>

definition handler_error_msg :: "string \<Rightarrow> string" where
  "handler_error_msg n =
     ''Error in event handler for '' @ [CHR 0x22] @ n @ [CHR 0x22] @ '':''"

text \<open>
  \<^verbatim>\<open>Array.from(eventHandles).map(...)\<close>: every listener of the snapshot is invoked inside
  its own \<^verbatim>\<open>try\<close>/\<^verbatim>\<open>catch\<close>.
\<close>

fun dispatch_wse :: "(nat \<Rightarrow> 'v \<Rightarrow> 'v jsval option) \<Rightarrow> string \<Rightarrow> 'v \<Rightarrow> nat list \<Rightarrow> 'v chan \<Rightarrow> 'v chan"
where
  "dispatch_wse L n payload [] s = s"
| "dispatch_wse L n payload (h # hs) s =
     (let s1 = s\<lparr>delivered := delivered s @ [(h, payload)]\<rparr> in
      case L h payload of
        None \<Rightarrow> dispatch_wse L n payload hs s1
      | Some x \<Rightarrow>
          dispatch_wse L n payload hs
            (s1\<lparr>console := console s1 @ [(handler_error_msg n, x)]\<rparr>))"

fun handleMessage_wse :: "(nat \<Rightarrow> 'v \<Rightarrow> 'v jsval option) \<Rightarrow> 'v WorkerMessage \<Rightarrow> 'v chan \<Rightarrow> 'v chan"
where
  "handleMessage_wse L (EventMessage t n payload) s =
     (if t = ''worker-sent-event'' \<and> map_of (handles s) n \<noteq> None
      then (case map_of (handles s) n of
              None \<Rightarrow> s
            | Some eventHandles \<Rightarrow> dispatch_wse L n payload eventHandles s)
      else s)"
| "handleMessage_wse L (Response i n payload err) s = handleResponse i payload err s"

text \<open>
  \<^verbatim>\<open>handleError\<close> is \<^verbatim>\<open>async\<close> in this revision: the call from the event loop runs up to
  the \<^verbatim>\<open>await\<close> (\<open>handleError_wse_begin\<close>) and returns; the rest
  (\<open>handleError_wse_resume\<close>) runs as a later microtask, after the reactions of the
  promises just rejected.
\<close>

definition handleError_wse_begin :: "'v \<Rightarrow> 'v chan \<Rightarrow> 'v chan" where
  "handleError_wse_begin e s =
     (let s1 = s\<lparr>console := console s @ [(''Worker encountered an error'', Val e)]\<rparr>
      in rejectAll e (map snd (queue s1)) s1)"

definition handleError_wse_resume :: "'v chan \<Rightarrow> 'v chan" where
  "handleError_wse_resume s = onTaskComplete (s\<lparr>queue := []\<rparr>)"

text \<open>\<^verbatim>\<open>onWSE\<close> returns the function \<^verbatim>\<open>() => offWSE(name, handler)\<close>, kept as the pair.\<close>

definition onWSE :: "string \<Rightarrow> nat \<Rightarrow> 'v chan \<Rightarrow> (string \<times> nat) \<times> 'v chan" where
  "onWSE n h s =
     (let (w, s1) = getWorker s;
          s2 = (if map_of (handles s1) n = None
                then s1\<lparr>handles := AList.update n [] (handles s1)\<rparr> else s1);
          s3 = (case map_of (handles s2) n of
                  None \<Rightarrow> s2
                | Some eventHandles \<Rightarrow>
                    s2\<lparr>handles := AList.update n (set_add h eventHandles) (handles s2)\<rparr>)
      in ((n, h), s3))"

definition offWSE :: "string \<Rightarrow> nat \<Rightarrow> 'v chan \<Rightarrow> 'v chan" where
  "offWSE n h s =
     (case map_of (handles s) n of
        None \<Rightarrow> s
      | Some eventHandles \<Rightarrow>
          s\<lparr>handles := AList.update n (set_delete h eventHandles) (handles s)\<rparr>)"

definition clearWSE :: "'v chan \<Rightarrow> 'v chan" where
  "clearWSE s = s\<lparr>handles := []\<rparr>"

subsection \<open>The revision with \<^verbatim>\<open>onEvent\<close>\<close>

text \<open>
  The map is named \<^verbatim>\<open>eventListeners\<close> in this revision; it is the field \<open>handles\<close>.
  \<^verbatim>\<open>listeners.forEach\<close> has no \<^verbatim>\<open>try\<close>: the first exception leaves the loop and
  \<^verbatim>\<open>handleMessage\<close>. The result is the exception thrown, if any, and the state.
  \<^verbatim>\<open>handleError\<close> is the text of \<^verbatim>\<open>src/index.ts\<close>.
\<close>

fun forEach_evt :: "(nat \<Rightarrow> 'v \<Rightarrow> 'v jsval option) \<Rightarrow> 'v \<Rightarrow> nat list \<Rightarrow> 'v chan \<Rightarrow> 'v jsval option \<times> 'v chan"
where
  "forEach_evt L payload [] s = (None, s)"
| "forEach_evt L payload (h # hs) s =
     (let s1 = s\<lparr>delivered := delivered s @ [(h, payload)]\<rparr> in
      case L h payload of
        None \<Rightarrow> forEach_evt L payload hs s1
      | Some x \<Rightarrow> (Some x, s1))"

fun handleMessage_evt :: "(nat \<Rightarrow> 'v \<Rightarrow> 'v jsval option) \<Rightarrow> 'v WorkerMessage \<Rightarrow> 'v chan \<Rightarrow> 'v jsval option \<times> 'v chan"
where
  "handleMessage_evt L (EventMessage t n payload) s =
     (if t \<noteq> ''worker-send-event'' \<or> map_of (handles s) n = None then (None, s)
      else (case map_of (handles s) n of
              None \<Rightarrow> (None, s)
            | Some listeners \<Rightarrow> forEach_evt L payload listeners s))"
| "handleMessage_evt L (Response i n payload err) s = (None, handleResponse i payload err s)"

definition offEvent :: "string \<Rightarrow> nat \<Rightarrow> 'v chan \<Rightarrow> 'v chan" where
  "offEvent n h s =
     (case map_of (handles s) n of
        None \<Rightarrow> s
      | Some listeners \<Rightarrow>
          s\<lparr>handles := AList.update n (set_delete h listeners) (handles s)\<rparr>)"

definition onEvent :: "string \<Rightarrow> nat \<Rightarrow> 'v chan \<Rightarrow> (string \<times> nat) \<times> 'v chan" where
  "onEvent n h s =
     (let (w, s1) = getWorker s;
          s2 = (if map_of (handles s1) n = None
                then s1\<lparr>handles := AList.update n [] (handles s1)\<rparr> else s1);
          s3 = (case map_of (handles s2) n of
                  None \<Rightarrow> s2
                | Some listeners \<Rightarrow>
                    s2\<lparr>handles := AList.update n (set_add h listeners) (handles s2)\<rparr>)
      in ((n, h), s3))"

definition clearEvents :: "string option \<Rightarrow> 'v chan \<Rightarrow> 'v chan" where
  "clearEvents n s =
     (case n of
        Some k \<Rightarrow> s\<lparr>handles := AList.delete k (handles s)\<rparr>
      | None \<Rightarrow> s\<lparr>handles := []\<rparr>)"

subsection \<open>Observations and scenarios\<close>

text \<open>The listeners reached by the dispatch of one inbound message, in order.\<close>

definition reached_wse :: "(nat \<Rightarrow> 'v \<Rightarrow> 'v jsval option) \<Rightarrow> 'v WorkerMessage \<Rightarrow> 'v chan \<Rightarrow> nat list" where
  "reached_wse L m s =
     map fst (drop (length (delivered s)) (delivered (handleMessage_wse L m s)))"

definition reached_evt :: "(nat \<Rightarrow> 'v \<Rightarrow> 'v jsval option) \<Rightarrow> 'v WorkerMessage \<Rightarrow> 'v chan \<Rightarrow> nat list" where
  "reached_evt L m s =
     map fst (drop (length (delivered s)) (delivered (snd (handleMessage_evt L m s))))"

text \<open>The listeners that \<^verbatim>\<open>forEach\<close> visits: all up to and including the first that throws.\<close>

fun visited :: "(nat \<Rightarrow> 'v \<Rightarrow> 'v jsval option) \<Rightarrow> 'v \<Rightarrow> nat list \<Rightarrow> nat list" where
  "visited L payload [] = []"
| "visited L payload (h # hs) =
     (case L h payload of None \<Rightarrow> h # visited L payload hs | Some x \<Rightarrow> [h])"

text \<open>
  \<open>issue\<close> makes one call after the other through the proxy and returns their promises;
  \<open>deliver\<close> hands a list of responses \<open>(id, name, payload, error)\<close> to \<^verbatim>\<open>handleMessage\<close> in
  the order of the list. \<open>outcome\<close> is the settlement that a response asks for.
\<close>

fun issue :: "(string \<times> 'v list option \<times> 'v list) list \<Rightarrow> 'v chan \<Rightarrow> nat list \<times> 'v chan" where
  "issue [] s = ([], s)"
| "issue ((n, transfer, as) # cs) s =
     (let (p, s1) = attempt n transfer as s;
          (ps, s2) = issue cs s1
      in (p # ps, s2))"

definition deliver :: "(nat \<times> string \<times> 'v \<times> bool) list \<Rightarrow> 'v chan \<Rightarrow> 'v chan" where
  "deliver rs s = fold (\<lambda>(i, n, payload, err). handleMessage (Response i n payload err)) rs s"

definition outcome :: "'v \<Rightarrow> bool \<Rightarrow> 'v pstate" where
  "outcome payload err = (if err then Rejected (Val payload) else Fulfilled (Val payload))"

text \<open>
  What the event loop hands to the channel of \<^verbatim>\<open>src/index.ts\<close>: a message for
  \<^verbatim>\<open>handleMessage\<close> or an error event for \<^verbatim>\<open>handleError\<close>. \<open>run\<close> handles a list of
  them in order.
\<close>

datatype 'v inbound = Message "'v WorkerMessage" | Failure 'v

fun step :: "'v inbound \<Rightarrow> 'v chan \<Rightarrow> 'v chan" where
  "step (Message m) s = handleMessage m s"
| "step (Failure e) s = handleError e s"

definition run :: "'v inbound list \<Rightarrow> 'v chan \<Rightarrow> 'v chan" where
  "run evs s = fold step evs s"

text \<open>
  The spec's \<^verbatim>\<open>failAll(reason)\<close>, in the spec's order: take the entries, clear the registry,
  then invoke every failure continuation.
\<close>

definition failAll_spec :: "'v \<Rightarrow> 'v chan \<Rightarrow> 'v chan" where
  "failAll_spec e s =
     (let snapshot = map snd (queue s);
          s1 = s\<lparr>queue := []\<rparr>
      in rejectAll e snapshot s1)"

subsection \<open>Well-formed states\<close>

text \<open>
  What holds of every state that the operations produce from \<^const>\<open>init\<close> (lemma
  \<open>reachable_wf\<close>). A registry entry holds the two
  functions of one promise, which is still pending; identifiers in the registry are
  positive, at most the counter, and no two entries share an identifier or a promise.
  While a terminate promise exists, its resolver is stored, it is pending, it is not a
  call's promise, the registry is not empty and the worker exists.
\<close>

definition promise_of :: "entry \<Rightarrow> nat option" where
  "promise_of en =
     (case resolve en of
        ResolveFn p \<Rightarrow> (if reject en = RejectFn p then Some p else None)
      | RejectFn p \<Rightarrow> None)"

definition entry_ok :: "'v chan \<Rightarrow> nat \<times> entry \<Rightarrow> bool" where
  "entry_ok s ke \<longleftrightarrow>
     0 < fst ke \<and> fst ke \<le> id_ctr s \<and>
     (case promise_of (snd ke) of
        None \<Rightarrow> False
      | Some p \<Rightarrow> p < length (promises s) \<and> promises s ! p = Pending)"

definition queue_ok :: "'v chan \<Rightarrow> bool" where
  "queue_ok s \<longleftrightarrow>
     distinct (map fst (queue s)) \<and>
     distinct (map snd (queue s)) \<and>
     (\<forall>ke \<in> set (queue s). entry_ok s ke)"

definition drain_ok :: "'v chan \<Rightarrow> bool" where
  "drain_ok s \<longleftrightarrow>
     (case terminatePromise s of
        None \<Rightarrow> terminateResolve s = None
      | Some tp \<Rightarrow>
          terminateResolve s = Some (ResolveFn tp) \<and>
          tp < length (promises s) \<and> promises s ! tp = Pending \<and>
          queue s \<noteq> [] \<and> worker s \<noteq> None \<and>
          (\<forall>ke \<in> set (queue s). promise_of (snd ke) \<noteq> Some tp))"

definition worker_ok :: "'v chan \<Rightarrow> bool" where
  "worker_ok s \<longleftrightarrow>
     (case worker s of
        None \<Rightarrow> True
      | Some w \<Rightarrow>
          w < length (workers s) \<and> listening (workers s ! w) \<and> \<not> terminated (workers s ! w))"

definition wf :: "'v chan \<Rightarrow> bool" where
  "wf s \<longleftrightarrow> queue_ok s \<and> drain_ok s \<and> worker_ok s"

text \<open>
  The states that \<^verbatim>\<open>src/index.ts\<close> can be in between two turns of the event loop: the
  state after \<^verbatim>\<open>createTypedWorker\<close>, and the state after a call through the proxy, an
  inbound message, an error event or \<^verbatim>\<open>terminate()\<close> in such a state.
\<close>

inductive reachable :: "'v chan \<Rightarrow> bool" where
  r_init: "reachable init"
| r_attempt: "reachable s \<Longrightarrow> reachable (snd (attempt n transfer as s))"
| r_message: "reachable s \<Longrightarrow> reachable (handleMessage m s)"
| r_error: "reachable s \<Longrightarrow> reachable (handleError e s)"
| r_terminate: "reachable s \<Longrightarrow> reachable (snd (terminate s))"

code_pred reachable .

subsection \<open>Example states\<close>

text \<open>
  \<open>ex_pending\<close>: a new channel after \<^verbatim>\<open>worker.add(2, 3)\<close>, before the response.
  \<open>ex_draining\<close>: the same after \<^verbatim>\<open>worker.terminate()\<close>.
\<close>

definition ex_pending :: "nat chan" where
  "ex_pending = snd (attempt ''add'' None [2, 3] init)"

definition ex_draining :: "nat chan" where
  "ex_draining = snd (terminate ex_pending)"

text \<open>\<open>ex_idle\<close>: \<open>ex_pending\<close> after the response \<^verbatim>\<open>{id: 1, name: "add", payload: 5}\<close>.\<close>

definition ex_idle :: "nat chan" where
  "ex_idle = handleMessage (Response 1 ''add'' 5 False) ex_pending"

text \<open>
  Two listeners for one event name, registered with \<^verbatim>\<open>onWSE\<close> and with \<^verbatim>\<open>onEvent\<close>, and
  a listener behaviour in which listener 0 throws \<^verbatim>\<open>new Error("boom")\<close>.
\<close>

definition ex_wse :: "nat chan" where
  "ex_wse = snd (onWSE ''count'' 1 (snd (onWSE ''count'' 0 init)))"

definition ex_evt :: "nat chan" where
  "ex_evt = snd (onEvent ''count'' 1 (snd (onEvent ''count'' 0 init)))"

definition ex_faulty :: "nat \<Rightarrow> nat \<Rightarrow> nat jsval option" where
  "ex_faulty h payload = (if h = 0 then Some (Error ''boom'') else None)"

text \<open>
  The revision with \<^verbatim>\<open>onWSE\<close>: an error event arrives in \<open>ex_pending\<close>
  (\<open>ex_error_begin\<close>, up to the \<^verbatim>\<open>await\<close>); the rejected call's reaction retries the
  call (\<open>ex_error_retry\<close>); then the rest of \<^verbatim>\<open>handleError\<close> runs (\<open>ex_error_end\<close>).
\<close>

definition ex_error_begin :: "nat chan" where
  "ex_error_begin = handleError_wse_begin 7 ex_pending"

definition ex_error_retry :: "nat chan" where
  "ex_error_retry = snd (attempt ''add'' None [2, 3] ex_error_begin)"

definition ex_error_end :: "nat chan" where
  "ex_error_end = handleError_wse_resume ex_error_retry"

text \<open>Three calls on a new channel, and their responses in another order.\<close>

definition ex_calls :: "(string \<times> nat list option \<times> nat list) list" where
  "ex_calls = [(''add'', None, [4, 6]), (''print'', None, [20]), (''throwError'', None, [])]"

definition ex_responses :: "(nat \<times> string \<times> nat \<times> bool) list" where
  "ex_responses = [(2, ''print'', 20, False), (3, ''throwError'', 30, True), (1, ''add'', 10, False)]"

section \<open>Lemmas\<close>

subsection \<open>Promises settle once; what the basic operations leave alone\<close>

lemma settle_fields [simp]:
  "worker (settle p st s) = worker s"
  "terminateResolve (settle p st s) = terminateResolve s"
  "terminatePromise (settle p st s) = terminatePromise s"
  "queue (settle p st s) = queue s"
  "id_ctr (settle p st s) = id_ctr s"
  "handles (settle p st s) = handles s"
  "workers (settle p st s) = workers s"
  "posted (settle p st s) = posted s"
  "console (settle p st s) = console s"
  "delivered (settle p st s) = delivered s"
  "length (promises (settle p st s)) = length (promises s)"
  by (simp_all add: settle_def)

lemma invoke_fields [simp]:
  "worker (invoke c v s) = worker s"
  "terminateResolve (invoke c v s) = terminateResolve s"
  "terminatePromise (invoke c v s) = terminatePromise s"
  "queue (invoke c v s) = queue s"
  "id_ctr (invoke c v s) = id_ctr s"
  "handles (invoke c v s) = handles s"
  "workers (invoke c v s) = workers s"
  "posted (invoke c v s) = posted s"
  "console (invoke c v s) = console s"
  "delivered (invoke c v s) = delivered s"
  "length (promises (invoke c v s)) = length (promises s)"
  by (cases c; simp)+

lemma settle_other: "q \<noteq> p \<Longrightarrow> promises (settle p st s) ! q = promises s ! q"
  by (simp add: settle_def)

lemma settle_done: "promises s ! q \<noteq> Pending \<Longrightarrow> promises (settle p st s) ! q = promises s ! q"
  by (cases "q = p") (auto simp: settle_def)

lemma settle_pending:
  "p < length (promises s) \<Longrightarrow> promises s ! p = Pending \<Longrightarrow> promises (settle p st s) ! p = st"
  by (simp add: settle_def)

lemma invoke_done: "promises s ! q \<noteq> Pending \<Longrightarrow> promises (invoke c v s) ! q = promises s ! q"
  by (cases c) (simp_all add: settle_done)

lemma terminateWorker_fields [simp]:
  "terminateResolve (terminateWorker s) = terminateResolve s"
  "terminatePromise (terminateWorker s) = terminatePromise s"
  "queue (terminateWorker s) = queue s"
  "id_ctr (terminateWorker s) = id_ctr s"
  "handles (terminateWorker s) = handles s"
  "promises (terminateWorker s) = promises s"
  "posted (terminateWorker s) = posted s"
  "console (terminateWorker s) = console s"
  "delivered (terminateWorker s) = delivered s"
  "worker (terminateWorker s) = None"
  by (simp_all add: terminateWorker_def split: option.splits)

lemma checkTerminateComplete_queue [simp]:
  "queue (checkTerminateComplete s) = queue s"
  by (simp add: checkTerminateComplete_def split: option.splits)

lemma checkTerminateComplete_nonempty:
  "queue s \<noteq> [] \<Longrightarrow> checkTerminateComplete s = s"
  by (simp add: checkTerminateComplete_def split: option.splits)

lemma checkTerminateComplete_idle:
  "terminatePromise s = None \<Longrightarrow> checkTerminateComplete s = s"
  by (simp add: checkTerminateComplete_def)

lemma checkTerminateComplete_done:
  "promises s ! q \<noteq> Pending \<Longrightarrow> promises (checkTerminateComplete s) ! q = promises s ! q"
  by (simp add: checkTerminateComplete_def invoke_done split: option.splits)

subsection \<open>The registry invariant\<close>

lemma promise_of_Some: "promise_of en = Some p \<longleftrightarrow> en = \<lparr>resolve = ResolveFn p, reject = RejectFn p\<rparr>"
  by (cases en) (auto simp: promise_of_def split: cont.splits)

lemma promise_of_entry [simp]:
  "promise_of \<lparr>resolve = ResolveFn p, reject = RejectFn p\<rparr> = Some p"
  by (simp add: promise_of_def)

lemma entry_ok_iff:
  "entry_ok s (k, en) \<longleftrightarrow>
     0 < k \<and> k \<le> id_ctr s \<and>
     (\<exists>p. en = \<lparr>resolve = ResolveFn p, reject = RejectFn p\<rparr> \<and>
          p < length (promises s) \<and> promises s ! p = Pending)"
  by (auto simp: entry_ok_def promise_of_Some split: option.splits)

lemma queue_ok_empty: "queue s = [] \<Longrightarrow> queue_ok s"
  by (simp add: queue_ok_def)

lemma queue_ok_checkTerminateComplete:
  "queue_ok s \<Longrightarrow> queue_ok (checkTerminateComplete s)"
  by (cases "queue s = []") (simp_all add: queue_ok_empty checkTerminateComplete_nonempty)

lemma entry_ok_settle:
  assumes "entry_ok s ke" and "promise_of (snd ke) \<noteq> Some p"
  shows "entry_ok (settle p st s) ke"
proof -
  obtain k en where ke: "ke = (k, en)" by (cases ke)
  from assms(1) obtain q where q: "en = \<lparr>resolve = ResolveFn q, reject = RejectFn q\<rparr>"
    "q < length (promises s)" "promises s ! q = Pending" and k: "0 < k" "k \<le> id_ctr s"
    unfolding ke entry_ok_iff by blast
  from assms(2) q(1) have "q \<noteq> p" by (auto simp: ke promise_of_Some)
  then have "promises (settle p st s) ! q = Pending" using q(3) by (simp add: settle_other)
  then show ?thesis unfolding ke entry_ok_iff using q k by simp
qed

lemma queue_ok_settle:
  assumes "queue_ok s" and "\<forall>ke \<in> set (queue s). promise_of (snd ke) \<noteq> Some p"
  shows "queue_ok (settle p st s)"
  using assms unfolding queue_ok_def by (simp add: entry_ok_settle)

lemma queue_ok_lookup:
  assumes "queue_ok s" and "map_of (queue s) i = Some e"
  obtains p where "promise_of e = Some p" and "p < length (promises s)"
    and "promises s ! p = Pending" and "0 < i" and "i \<le> id_ctr s"
proof -
  from assms(2) have "(i, e) \<in> set (queue s)" by (rule map_of_SomeD)
  with assms(1) have "entry_ok s (i, e)" unfolding queue_ok_def by blast
  then show ?thesis using that unfolding entry_ok_iff by (auto simp: promise_of_Some)
qed

lemma entry_ok_queue_update [simp]: "entry_ok (s\<lparr>queue := q\<rparr>) ke = entry_ok s ke"
  by (simp add: entry_ok_def split: option.splits)

lemma queue_ok_delete:
  assumes "queue_ok s"
  shows "queue_ok (s\<lparr>queue := AList.delete i (queue s)\<rparr>)"
proof -
  have sub: "set (AList.delete i (queue s)) \<subseteq> set (queue s)"
    by (auto simp: AList.delete_eq)
  have d1: "distinct (map fst (AList.delete i (queue s)))"
    using assms by (simp add: queue_ok_def distinct_delete)
  have d2: "distinct (map snd (AList.delete i (queue s)))"
    using assms by (simp add: queue_ok_def AList.delete_eq distinct_map_filter)
  show ?thesis
    using assms sub d1 d2 unfolding queue_ok_def by auto
qed

lemma delete_other_promise:
  assumes "queue_ok s" and "map_of (queue s) i = Some e" and "promise_of e = Some p"
  shows "\<forall>ke \<in> set (AList.delete i (queue s)). promise_of (snd ke) \<noteq> Some p"
proof
  fix ke
  assume mem: "ke \<in> set (AList.delete i (queue s))"
  show "promise_of (snd ke) \<noteq> Some p"
  proof
    assume same: "promise_of (snd ke) = Some p"
    from mem have kin: "ke \<in> set (queue s)" and ki: "fst ke \<noteq> i"
      by (auto simp: AList.delete_eq)
    from same assms(3) have "snd ke = e" by (simp add: promise_of_Some)
    moreover have "(i, e) \<in> set (queue s)" using assms(2) by (rule map_of_SomeD)
    moreover have "inj_on snd (set (queue s))"
      using assms(1) by (simp add: queue_ok_def distinct_map)
    ultimately have "ke = (i, e)" using kin inj_onD [of snd "set (queue s)" ke "(i, e)"] by simp
    with ki show False by simp
  qed
qed

lemma queue_ok_handleResponse:
  assumes "queue_ok s"
  shows "queue_ok (handleResponse i payload err s)"
proof (cases "map_of (queue s) i")
  case None
  then show ?thesis using assms by (simp add: handleResponse_def)
next
  case (Some e)
  from assms Some obtain p where p: "promise_of e = Some p"
    by (rule queue_ok_lookup)
  let ?s1 = "s\<lparr>queue := AList.delete i (queue s)\<rparr>"
  have ok1: "queue_ok ?s1" using assms by (rule queue_ok_delete)
  have fresh: "\<forall>ke \<in> set (queue ?s1). promise_of (snd ke) \<noteq> Some p"
    using delete_other_promise [OF assms Some p] by simp
  have "queue_ok (settle p st ?s1)" for st
    using ok1 fresh by (rule queue_ok_settle)
  moreover have "resolve e = ResolveFn p" "reject e = RejectFn p"
    using p by (simp_all add: promise_of_Some)
  ultimately show ?thesis
    using Some by (simp add: handleResponse_def onTaskComplete_def Let_def queue_ok_checkTerminateComplete)
qed

subsection \<open>Responses\<close>

lemma handleResponse_done:
  "promises s ! q \<noteq> Pending \<Longrightarrow> promises (handleResponse i payload err s) ! q = promises s ! q"
  by (simp add: handleResponse_def onTaskComplete_def Let_def checkTerminateComplete_done invoke_done
      split: option.splits)

lemma handleResponse_other:
  "k \<noteq> i \<Longrightarrow> map_of (queue (handleResponse i payload err s)) k = map_of (queue s) k"
  by (simp add: handleResponse_def onTaskComplete_def Let_def split: option.splits)

lemma outcome_settled [simp]: "outcome payload err \<noteq> Pending"
  by (simp add: outcome_def)

lemma handleResponse_settles:
  assumes "queue_ok s" and "map_of (queue s) k = Some e" and "promise_of e = Some p"
  shows "promises (handleResponse k payload err s) ! p = outcome payload err"
proof -
  from assms(1,2) obtain p' where "promise_of e = Some p'" "p' < length (promises s)"
    "promises s ! p' = Pending" by (rule queue_ok_lookup)
  with assms(3) have lt: "p < length (promises s)" and pend: "promises s ! p = Pending" by simp_all
  let ?s1 = "s\<lparr>queue := AList.delete k (queue s)\<rparr>"
  let ?s2 = "settle p (outcome payload err) ?s1"
  have "promises ?s2 ! p = outcome payload err"
    using lt pend by (simp add: settle_pending)
  then have "promises (checkTerminateComplete ?s2) ! p = outcome payload err"
    by (simp add: checkTerminateComplete_done)
  moreover have "handleResponse k payload err s = checkTerminateComplete ?s2"
    using assms(2,3) by (simp add: handleResponse_def onTaskComplete_def Let_def promise_of_Some outcome_def)
  ultimately show ?thesis by simp
qed

lemma deliver_Cons [simp]:
  "deliver ((i, n, payload, err) # rs) s = deliver rs (handleResponse i payload err s)"
  by (simp add: deliver_def)

lemma deliver_Nil [simp]: "deliver [] s = s"
  by (simp add: deliver_def)

lemma deliver_done:
  "promises s ! q \<noteq> Pending \<Longrightarrow> promises (deliver rs s) ! q = promises s ! q"
proof (induction rs arbitrary: s)
  case Nil
  then show ?case by simp
next
  case (Cons r rs)
  obtain i n payload err where r: "r = (i, n, payload, err)" by (cases r) auto
  have "promises (handleResponse i payload err s) ! q \<noteq> Pending"
    using Cons.prems by (simp add: handleResponse_done)
  then show ?case using Cons.IH Cons.prems by (simp add: r handleResponse_done)
qed

lemma deliver_settles:
  assumes "queue_ok s" and "map_of (queue s) k = Some e" and "promise_of e = Some p"
    and "distinct (map fst rs)" and "(k, n, payload, err) \<in> set rs"
  shows "promises (deliver rs s) ! p = outcome payload err"
  using assms
proof (induction rs arbitrary: s)
  case Nil
  then show ?case by simp
next
  case (Cons r rs)
  obtain i n' payload' err' where r: "r = (i, n', payload', err')" by (cases r) auto
  show ?case
  proof (cases "i = k")
    case True
    have "(k, n, payload, err) \<notin> set rs"
      using Cons.prems(4) True r by (force simp: image_iff)
    with Cons.prems(5) have same: "r = (k, n, payload, err)" by simp
    have "promises (handleResponse k payload err s) ! p = outcome payload err"
      using Cons.prems(1-3) by (rule handleResponse_settles)
    then show ?thesis
      using same by (simp add: deliver_done)
  next
    case False
    let ?s' = "handleResponse i payload' err' s"
    have "queue_ok ?s'" using Cons.prems(1) by (rule queue_ok_handleResponse)
    moreover have "map_of (queue ?s') k = Some e"
      using False Cons.prems(2) by (simp add: handleResponse_other)
    moreover have "(k, n, payload, err) \<in> set rs"
      using Cons.prems(5) False r by auto
    ultimately have "promises (deliver rs ?s') ! p = outcome payload err"
      using Cons.IH Cons.prems(3,4) by simp
    then show ?thesis by (simp add: r)
  qed
qed

subsection \<open>Two example states, evaluated\<close>

lemma ex_pending_eq:
  "ex_pending =
     \<lparr>worker = Some 0, terminateResolve = None, terminatePromise = None,
      queue = [(1, \<lparr>resolve = ResolveFn 0, reject = RejectFn 0\<rparr>)],
      id_ctr = 1, handles = [], promises = [Pending],
      workers = [\<lparr>listening = True, terminated = False\<rparr>],
      posted = [(0, \<lparr>mid = 1, mname = ''add'', margs = [2, 3]\<rparr>, None)],
      console = [], delivered = []\<rparr>"
  by (simp add: ex_pending_def attempt_def call_def getWorker_def invoke_call_def newPromise_def
      generateId_def init_def)

lemma ex_draining_eq:
  "ex_draining =
     \<lparr>worker = Some 0, terminateResolve = Some (ResolveFn 1), terminatePromise = Some 1,
      queue = [(1, \<lparr>resolve = ResolveFn 0, reject = RejectFn 0\<rparr>)],
      id_ctr = 1, handles = [], promises = [Pending, Pending],
      workers = [\<lparr>listening = True, terminated = False\<rparr>],
      posted = [(0, \<lparr>mid = 1, mname = ''add'', margs = [2, 3]\<rparr>, None)],
      console = [], delivered = []\<rparr>"
  by (simp add: ex_draining_def ex_pending_eq terminate_def newPromise_def)

subsection \<open>Rejected calls\<close>

lemma invoke_call_draining:
  assumes "terminatePromise s \<noteq> None"
  shows "invoke_call c as s =
       (length (promises s),
        s\<lparr>promises := promises s @ [Rejected (Error terminating_msg)]\<rparr>)"
  using assms by (auto simp: invoke_call_def newPromise_def settle_def nth_append)

lemma getWorker_fields [simp]:
  "terminateResolve (snd (getWorker s)) = terminateResolve s"
  "terminatePromise (snd (getWorker s)) = terminatePromise s"
  "queue (snd (getWorker s)) = queue s"
  "id_ctr (snd (getWorker s)) = id_ctr s"
  "handles (snd (getWorker s)) = handles s"
  "promises (snd (getWorker s)) = promises s"
  "posted (snd (getWorker s)) = posted s"
  "console (snd (getWorker s)) = console s"
  "delivered (snd (getWorker s)) = delivered s"
  by (simp_all add: getWorker_def Let_def split: option.splits)

lemma attempt_unfold:
  "attempt n transfer as s =
     invoke_call \<lparr>cworker = fst (getWorker s), cname = n, ctransfer = transfer\<rparr> as (snd (getWorker s))"
  by (simp add: attempt_def call_def split_beta)

subsection \<open>Admitted calls\<close>

lemma update_fresh: "k \<notin> fst ` set al \<Longrightarrow> AList.update k v al = al @ [(k, v)]"
  by (induction al) auto

lemma queue_keys_le:
  assumes "queue_ok s" and "k \<in> fst ` set (queue s)"
  shows "0 < k \<and> k \<le> id_ctr s"
  using assms unfolding queue_ok_def entry_ok_def by auto

lemma next_id_fresh:
  assumes "queue_ok s"
  shows "id_ctr s + 1 \<notin> fst ` set (queue s)"
  using queue_keys_le [OF assms, of "id_ctr s + 1"] by auto

lemma attempt_admitted:
  assumes "terminatePromise s = None"
  shows "fst (attempt n transfer as s) = length (promises s)"
    and "promises (snd (attempt n transfer as s)) = promises s @ [Pending]"
    and "id_ctr (snd (attempt n transfer as s)) = id_ctr s + 1"
    and "queue (snd (attempt n transfer as s)) =
           AList.update (id_ctr s + 1)
             \<lparr>resolve = ResolveFn (length (promises s)), reject = RejectFn (length (promises s))\<rparr>
             (queue s)"
    and "posted (snd (attempt n transfer as s)) =
           posted s @ [(fst (getWorker s), \<lparr>mid = id_ctr s + 1, mname = n, margs = as\<rparr>, transfer)]"
    and "terminatePromise (snd (attempt n transfer as s)) = None"
    and "terminateResolve (snd (attempt n transfer as s)) = terminateResolve s"
    and "worker (snd (attempt n transfer as s)) = Some (fst (getWorker s))"
    and "workers (snd (attempt n transfer as s)) = workers (snd (getWorker s))"
    and "handles (snd (attempt n transfer as s)) = handles s"
    and "console (snd (attempt n transfer as s)) = console s"
    and "delivered (snd (attempt n transfer as s)) = delivered s"
  using assms
  by (simp_all add: attempt_unfold invoke_call_def newPromise_def generateId_def Let_def
      getWorker_def split: option.splits)

lemma entry_ok_grow:
  assumes "entry_ok s ke" and "id_ctr s \<le> id_ctr s'" and "promises s' = promises s @ ps"
  shows "entry_ok s' ke"
  using assms unfolding entry_ok_def by (auto simp: nth_append split: option.splits)

lemma queue_ok_attempt:
  assumes "queue_ok s" and "terminatePromise s = None"
  shows "queue_ok (snd (attempt n transfer as s))"
proof -
  let ?s' = "snd (attempt n transfer as s)"
  let ?p = "length (promises s)"
  let ?e = "\<lparr>resolve = ResolveFn ?p, reject = RejectFn ?p\<rparr>"
  have q: "queue ?s' = queue s @ [(id_ctr s + 1, ?e)]"
    using attempt_admitted(4) [OF assms(2)] next_id_fresh [OF assms(1)]
    by (simp add: update_fresh)
  have old: "entry_ok ?s' ke" if "ke \<in> set (queue s)" for ke
  proof -
    from that assms(1) have "entry_ok s ke" by (simp add: queue_ok_def)
    then show ?thesis
      by (rule entry_ok_grow) (simp_all add: attempt_admitted [OF assms(2)])
  qed
  have new: "entry_ok ?s' (id_ctr s + 1, ?e)"
    by (simp add: entry_ok_iff attempt_admitted [OF assms(2)])
  have notin: "?e \<notin> snd ` set (queue s)"
  proof
    assume "?e \<in> snd ` set (queue s)"
    then obtain k where "(k, ?e) \<in> set (queue s)" by auto
    with assms(1) have "entry_ok s (k, ?e)" by (simp add: queue_ok_def)
    then show False by (simp add: entry_ok_def)
  qed
  show ?thesis
    unfolding queue_ok_def q
    using assms(1) old new notin next_id_fresh [OF assms(1)]
    by (auto simp: queue_ok_def)
qed

lemma attempt_lookup_new:
  assumes "queue_ok s" and "terminatePromise s = None"
  shows "map_of (queue (snd (attempt n transfer as s))) (id_ctr s + 1) =
           Some \<lparr>resolve = ResolveFn (fst (attempt n transfer as s)),
                 reject = RejectFn (fst (attempt n transfer as s))\<rparr>"
  by (simp add: attempt_admitted [OF assms(2)] update_conv')

lemma attempt_lookup_old:
  assumes "terminatePromise s = None" and "k \<noteq> id_ctr s + 1"
  shows "map_of (queue (snd (attempt n transfer as s))) k = map_of (queue s) k"
  using assms(2) by (simp add: attempt_admitted [OF assms(1)] update_conv')

lemma issue_Cons:
  "issue ((n, transfer, as) # cs) s =
     (fst (attempt n transfer as s) # fst (issue cs (snd (attempt n transfer as s))),
      snd (issue cs (snd (attempt n transfer as s))))"
  by (simp add: split_beta)

lemma issue_registers:
  assumes "queue_ok s" and "terminatePromise s = None"
  shows "queue_ok (snd (issue cs s)) \<and>
         terminatePromise (snd (issue cs s)) = None \<and>
         length (fst (issue cs s)) = length cs \<and>
         id_ctr (snd (issue cs s)) = id_ctr s + length cs \<and>
         (\<forall>j < length cs.
            map_of (queue (snd (issue cs s))) (id_ctr s + 1 + j) =
              Some \<lparr>resolve = ResolveFn (fst (issue cs s) ! j),
                    reject = RejectFn (fst (issue cs s) ! j)\<rparr> \<and>
            fst (issue cs s) ! j = length (promises s) + j \<and>
            promises (snd (issue cs s)) ! (fst (issue cs s) ! j) = Pending) \<and>
         (\<forall>k \<le> id_ctr s. map_of (queue (snd (issue cs s))) k = map_of (queue s) k) \<and>
         length (promises (snd (issue cs s))) = length (promises s) + length cs \<and>
         (\<forall>q < length (promises s). promises (snd (issue cs s)) ! q = promises s ! q)"
  using assms
proof (induction cs arbitrary: s)
  case Nil
  then show ?case by simp
next
  case (Cons c cs)
  obtain n transfer as where c: "c = (n, transfer, as)" by (cases c) auto
  let ?s1 = "snd (attempt n transfer as s)"
  let ?p = "fst (attempt n transfer as s)"
  note adm = attempt_admitted [OF Cons.prems(2), of n transfer as]
  have ok1: "queue_ok ?s1" using Cons.prems by (rule queue_ok_attempt)
  have idle1: "terminatePromise ?s1 = None" by (rule adm(6))
  note IH = Cons.IH [OF ok1 idle1]
  have id1: "id_ctr ?s1 = id_ctr s + 1" by (rule adm(3))
  have len1: "length (promises ?s1) = length (promises s) + 1" by (simp add: adm(2))
  have look0: "map_of (queue (snd (issue cs ?s1))) (id_ctr s + 1) =
                 Some \<lparr>resolve = ResolveFn ?p, reject = RejectFn ?p\<rparr>"
    using IH attempt_lookup_new [OF Cons.prems, of n transfer as] by (simp add: id1)
  have pend0: "promises (snd (issue cs ?s1)) ! ?p = Pending"
    using IH by (simp add: adm(1,2) nth_append)
  have step: "map_of (queue (snd (issue cs ?s1))) (id_ctr s + 1 + j) =
                Some \<lparr>resolve = ResolveFn ((?p # fst (issue cs ?s1)) ! j),
                      reject = RejectFn ((?p # fst (issue cs ?s1)) ! j)\<rparr> \<and>
              (?p # fst (issue cs ?s1)) ! j = length (promises s) + j \<and>
              promises (snd (issue cs ?s1)) ! ((?p # fst (issue cs ?s1)) ! j) = Pending"
    if "j < Suc (length cs)" for j
  proof (cases j)
    case 0
    then show ?thesis using look0 pend0 by (simp add: adm(1))
  next
    case (Suc j')
    with that have j': "j' < length cs" by simp
    from IH have "\<forall>j < length cs.
            map_of (queue (snd (issue cs ?s1))) (id_ctr ?s1 + 1 + j) =
              Some \<lparr>resolve = ResolveFn (fst (issue cs ?s1) ! j),
                    reject = RejectFn (fst (issue cs ?s1) ! j)\<rparr> \<and>
            fst (issue cs ?s1) ! j = length (promises ?s1) + j \<and>
            promises (snd (issue cs ?s1)) ! (fst (issue cs ?s1) ! j) = Pending"
      by blast
    with j' have "map_of (queue (snd (issue cs ?s1))) (id_ctr ?s1 + 1 + j') =
              Some \<lparr>resolve = ResolveFn (fst (issue cs ?s1) ! j'),
                    reject = RejectFn (fst (issue cs ?s1) ! j')\<rparr> \<and>
            fst (issue cs ?s1) ! j' = length (promises ?s1) + j' \<and>
            promises (snd (issue cs ?s1)) ! (fst (issue cs ?s1) ! j') = Pending"
      by blast
    then show ?thesis by (auto simp: Suc id1 len1)
  qed
  have old: "map_of (queue (snd (issue cs ?s1))) k = map_of (queue s) k" if "k \<le> id_ctr s" for k
  proof -
    from IH have "\<forall>k \<le> id_ctr ?s1. map_of (queue (snd (issue cs ?s1))) k = map_of (queue ?s1) k"
      by blast
    with that have "map_of (queue (snd (issue cs ?s1))) k = map_of (queue ?s1) k"
      by (simp add: id1)
    also have "\<dots> = map_of (queue s) k"
      using that by (intro attempt_lookup_old [OF Cons.prems(2)]) simp
    finally show ?thesis .
  qed
  have keep: "promises (snd (issue cs ?s1)) ! q = promises s ! q" if "q < length (promises s)" for q
  proof -
    from IH have "\<forall>q < length (promises ?s1). promises (snd (issue cs ?s1)) ! q = promises ?s1 ! q"
      by blast
    with that have "promises (snd (issue cs ?s1)) ! q = promises ?s1 ! q"
      by (simp add: len1)
    then show ?thesis using that by (simp add: adm(2) nth_append)
  qed
  let ?r = "issue (c # cs) s"
  have fst_r: "fst ?r = ?p # fst (issue cs ?s1)" and snd_r: "snd ?r = snd (issue cs ?s1)"
    by (simp_all add: c split_beta)
  have 1: "queue_ok (snd ?r)" using IH by (simp add: snd_r)
  have 2: "terminatePromise (snd ?r) = None" using IH by (simp add: snd_r)
  have 3: "length (fst ?r) = length (c # cs)" using IH by (simp add: fst_r)
  have 4: "id_ctr (snd ?r) = id_ctr s + length (c # cs)" using IH by (simp add: snd_r id1)
  have 5: "\<forall>j < length (c # cs).
            map_of (queue (snd ?r)) (id_ctr s + 1 + j) =
              Some \<lparr>resolve = ResolveFn (fst ?r ! j), reject = RejectFn (fst ?r ! j)\<rparr> \<and>
            fst ?r ! j = length (promises s) + j \<and>
            promises (snd ?r) ! (fst ?r ! j) = Pending"
    unfolding fst_r snd_r
  proof (intro allI impI)
    fix j
    assume "j < length (c # cs)"
    then have "j < Suc (length cs)" by simp
    then show "map_of (queue (snd (issue cs ?s1))) (id_ctr s + 1 + j) =
                Some \<lparr>resolve = ResolveFn ((?p # fst (issue cs ?s1)) ! j),
                      reject = RejectFn ((?p # fst (issue cs ?s1)) ! j)\<rparr> \<and>
              (?p # fst (issue cs ?s1)) ! j = length (promises s) + j \<and>
              promises (snd (issue cs ?s1)) ! ((?p # fst (issue cs ?s1)) ! j) = Pending"
      by (rule step)
  qed
  have 6: "\<forall>k \<le> id_ctr s. map_of (queue (snd ?r)) k = map_of (queue s) k"
    unfolding snd_r using old by simp
  have 7: "length (promises (snd ?r)) = length (promises s) + length (c # cs)"
    using IH by (simp add: snd_r len1)
  have 8: "\<forall>q < length (promises s). promises (snd ?r) ! q = promises s ! q"
    unfolding snd_r using keep by simp
  from 1 2 3 4 5 6 7 8 show ?case by blast
qed

lemma getWorker_after_attempt:
  assumes "terminatePromise s = None"
  shows "fst (getWorker (snd (attempt n transfer as s))) = fst (getWorker s)"
  using attempt_admitted(8) [OF assms, of n transfer as] by (simp add: getWorker_def)

lemma enumerate_shift:
  "map (\<lambda>(j, c). f (Suc j) c) (enumerate n xs) = map (\<lambda>(j, c). f j c) (enumerate (Suc n) xs)"
  by (induction xs arbitrary: n) simp_all

lemma issue_posted:
  assumes "terminatePromise s = None"
  shows "posted (snd (issue cs s)) =
           posted s @
           map (\<lambda>(j, c). (fst (getWorker s),
                           \<lparr>mid = id_ctr s + 1 + j, mname = fst c, margs = snd (snd c)\<rparr>,
                           fst (snd c)))
               (enumerate 0 cs)"
  using assms
proof (induction cs arbitrary: s)
  case Nil
  then show ?case by simp
next
  case (Cons c cs)
  obtain n transfer as where c: "c = (n, transfer, as)" by (cases c) auto
  let ?s1 = "snd (attempt n transfer as s)"
  note adm = attempt_admitted [OF Cons.prems, of n transfer as]
  have "posted (snd (issue cs ?s1)) =
          posted ?s1 @
          map (\<lambda>(j, c). (fst (getWorker s),
                          \<lparr>mid = id_ctr s + 1 + Suc j, mname = fst c, margs = snd (snd c)\<rparr>,
                          fst (snd c)))
              (enumerate 0 cs)"
    using Cons.IH [OF adm(6)] by (simp add: adm(3) getWorker_after_attempt [OF Cons.prems])
  also have "map (\<lambda>(j, c). (fst (getWorker s),
                          \<lparr>mid = id_ctr s + 1 + Suc j, mname = fst c, margs = snd (snd c)\<rparr>,
                          fst (snd c)))
              (enumerate 0 cs) =
            map (\<lambda>(j, c). (fst (getWorker s),
                          \<lparr>mid = id_ctr s + 1 + j, mname = fst c, margs = snd (snd c)\<rparr>,
                          fst (snd c)))
              (enumerate (Suc 0) cs)"
    by (rule enumerate_shift
          [of "\<lambda>j c. (fst (getWorker s),
                          \<lparr>mid = id_ctr s + 1 + j, mname = fst c, margs = snd (snd c)\<rparr>,
                          fst (snd c))"])
  finally show ?case
    by (simp add: c split_beta adm(5))
qed

lemma queue_ok_init: "queue_ok init"
  by (simp add: init_def queue_ok_def)

subsection \<open>Failing every pending call\<close>

lemma rejectAll_Nil [simp]: "rejectAll e [] s = s"
  by (simp add: rejectAll_def)

lemma rejectAll_Cons [simp]:
  "rejectAll e (en # es) s = rejectAll e es (invoke (reject en) (Val e) s)"
  by (simp add: rejectAll_def)

lemma rejectAll_fields [simp]:
  "worker (rejectAll e es s) = worker s"
  "terminateResolve (rejectAll e es s) = terminateResolve s"
  "terminatePromise (rejectAll e es s) = terminatePromise s"
  "queue (rejectAll e es s) = queue s"
  "id_ctr (rejectAll e es s) = id_ctr s"
  "handles (rejectAll e es s) = handles s"
  "workers (rejectAll e es s) = workers s"
  "posted (rejectAll e es s) = posted s"
  "console (rejectAll e es s) = console s"
  "delivered (rejectAll e es s) = delivered s"
  "length (promises (rejectAll e es s)) = length (promises s)"
  by (induction es arbitrary: s; simp)+

lemma rejectAll_done:
  "promises s ! q \<noteq> Pending \<Longrightarrow> promises (rejectAll e es s) ! q = promises s ! q"
  by (induction es arbitrary: s) (simp_all add: invoke_done)

lemma invoke_reject_other:
  assumes "promise_of en = Some p" and "p \<noteq> q"
  shows "promises (invoke (reject en) v s) ! q = promises s ! q"
  using assms by (simp add: promise_of_Some settle_other)

lemma rejectAll_other:
  assumes "\<forall>en \<in> set es. promise_of en \<noteq> None \<and> promise_of en \<noteq> Some q"
  shows "promises (rejectAll e es s) ! q = promises s ! q"
  using assms
proof (induction es arbitrary: s)
  case Nil
  then show ?case by simp
next
  case (Cons en es)
  then obtain p where p: "promise_of en = Some p" "p \<noteq> q" by auto
  have "promises (rejectAll e es (invoke (reject en) (Val e) s)) ! q =
        promises (invoke (reject en) (Val e) s) ! q"
    using Cons by simp
  then show ?case using p by (simp add: invoke_reject_other)
qed

lemma rejectAll_rejects:
  assumes "\<forall>en \<in> set es. promise_of en \<noteq> None"
    and "en \<in> set es" and "promise_of en = Some p"
    and "p < length (promises s)" and "promises s ! p = Pending"
  shows "promises (rejectAll e es s) ! p = Rejected (Val e)"
  using assms
proof (induction es arbitrary: s)
  case Nil
  then show ?case by simp
next
  case (Cons a es)
  let ?s1 = "invoke (reject a) (Val e) s"
  from Cons.prems(1) obtain pa where pa: "promise_of a = Some pa" by auto
  show ?case
  proof (cases "pa = p")
    case True
    then have "promises ?s1 ! p = Rejected (Val e)"
      using pa Cons.prems(4,5) by (simp add: promise_of_Some settle_pending)
    then show ?thesis by (simp add: rejectAll_done)
  next
    case False
    then have "a \<noteq> en" using pa Cons.prems(3) by auto
    then have mem: "en \<in> set es" using Cons.prems(2) by simp
    have keep: "promises ?s1 ! p = Pending"
      using pa False Cons.prems(5) by (simp add: invoke_reject_other)
    have "promises (rejectAll e es ?s1) ! p = Rejected (Val e)"
      using Cons.prems(1,3,4) mem keep by (intro Cons.IH) simp_all
    then show ?thesis by simp
  qed
qed

lemma settle_queue_update: "settle p st (s\<lparr>queue := q\<rparr>) = (settle p st s)\<lparr>queue := q\<rparr>"
  by (simp add: settle_def)

lemma invoke_queue_update: "invoke c v (s\<lparr>queue := q\<rparr>) = (invoke c v s)\<lparr>queue := q\<rparr>"
  by (cases c) (simp_all add: settle_queue_update)

lemma rejectAll_queue_update: "rejectAll e es (s\<lparr>queue := q\<rparr>) = (rejectAll e es s)\<lparr>queue := q\<rparr>"
  by (induction es arbitrary: s) (simp_all add: invoke_queue_update)

lemma queue_entries_wellformed:
  assumes "queue_ok s"
  shows "\<forall>en \<in> set (map snd (queue s)). promise_of en \<noteq> None"
  using assms unfolding queue_ok_def entry_ok_def by (auto split: option.splits)

lemma handleError_unfold:
  "handleError e s =
     checkTerminateComplete
       ((rejectAll e (map snd (queue s))
          (s\<lparr>console := console s @ [(''Worker encountered an error'', Val e)]\<rparr>))\<lparr>queue := []\<rparr>)"
  by (simp add: handleError_def onTaskComplete_def Let_def)

lemma handleError_queue [simp]: "queue (handleError e s) = []"
  by (simp add: handleError_unfold)

lemma handleError_as_failAll:
  "handleError e s =
     onTaskComplete
       (failAll_spec e (s\<lparr>console := console s @ [(''Worker encountered an error'', Val e)]\<rparr>))"
  by (simp add: handleError_unfold failAll_spec_def onTaskComplete_def Let_def rejectAll_queue_update)

lemma handleError_rejects:
  assumes "queue_ok s" and "(k, en) \<in> set (queue s)" and "promise_of en = Some p"
  shows "promises (handleError e s) ! p = Rejected (Val e)"
proof -
  let ?s1 = "s\<lparr>console := console s @ [(''Worker encountered an error'', Val e)]\<rparr>"
  let ?s2 = "rejectAll e (map snd (queue s)) ?s1"
  from assms(1,2) have "entry_ok s (k, en)" by (simp add: queue_ok_def)
  with assms(3) have lt: "p < length (promises ?s1)" and pend: "promises ?s1 ! p = Pending"
    by (simp_all add: entry_ok_def)
  have mem: "en \<in> set (map snd (queue s))" using assms(2) by force
  have "promises ?s2 ! p = Rejected (Val e)"
    using queue_entries_wellformed [OF assms(1)] mem assms(3) lt pend
    by (rule rejectAll_rejects)
  then have "promises (checkTerminateComplete (?s2\<lparr>queue := []\<rparr>)) ! p = Rejected (Val e)"
    by (simp add: checkTerminateComplete_done)
  then show ?thesis by (simp add: handleError_unfold)
qed

lemma handleError_done:
  "promises s ! q \<noteq> Pending \<Longrightarrow> promises (handleError e s) ! q = promises s ! q"
  by (simp add: handleError_unfold checkTerminateComplete_done rejectAll_done)

subsection \<open>Draining\<close>

lemma checkTerminateComplete_completes:
  assumes "terminatePromise s = Some tp" and "terminateResolve s = Some r" and "queue s = []"
  shows "checkTerminateComplete s =
           invoke r Undefined
             (terminateWorker (s\<lparr>terminateResolve := None, terminatePromise := None, id_ctr := 0\<rparr>))"
  using assms by (simp add: checkTerminateComplete_def)

lemma drain_completed_fields:
  assumes "terminatePromise s = Some tp" and "terminateResolve s = Some (ResolveFn tp)"
    and "queue s = []" and "tp < length (promises s)" and "promises s ! tp = Pending"
  shows "promises (checkTerminateComplete s) ! tp = Fulfilled Undefined"
    and "terminatePromise (checkTerminateComplete s) = None"
    and "terminateResolve (checkTerminateComplete s) = None"
    and "id_ctr (checkTerminateComplete s) = 0"
    and "worker (checkTerminateComplete s) = None"
    and "workers (checkTerminateComplete s) =
           (case worker s of None \<Rightarrow> workers s
            | Some w \<Rightarrow> (workers s)[w := \<lparr>listening = False, terminated = True\<rparr>])"
  using assms
  by (simp_all add: checkTerminateComplete_completes [OF assms(1,2,3)] settle_pending
      terminateWorker_def split: option.splits)

lemma drain_okD:
  assumes "drain_ok s" and "terminatePromise s = Some tp"
  shows "terminateResolve s = Some (ResolveFn tp)" and "tp < length (promises s)"
    and "promises s ! tp = Pending" and "queue s \<noteq> []" and "worker s \<noteq> None"
    and "\<forall>ke \<in> set (queue s). promise_of (snd ke) \<noteq> Some tp"
  using assms by (simp_all add: drain_ok_def)

lemma drain_handleResponse:
  assumes "queue_ok s" and "drain_ok s" and "terminatePromise s = Some tp"
  shows "queue (handleResponse i payload err s) \<noteq> [] \<Longrightarrow>
           drain_ok (handleResponse i payload err s) \<and>
           terminatePromise (handleResponse i payload err s) = Some tp \<and>
           promises (handleResponse i payload err s) ! tp = Pending"
    and "queue (handleResponse i payload err s) = [] \<Longrightarrow>
           promises (handleResponse i payload err s) ! tp = Fulfilled Undefined \<and>
           terminatePromise (handleResponse i payload err s) = None \<and>
           terminateResolve (handleResponse i payload err s) = None \<and>
           id_ctr (handleResponse i payload err s) = 0 \<and>
           worker (handleResponse i payload err s) = None"
proof -
  note d = drain_okD [OF assms(2,3)]
  let ?h = "handleResponse i payload err s"
  have "(queue ?h \<noteq> [] \<longrightarrow>
           drain_ok ?h \<and> terminatePromise ?h = Some tp \<and> promises ?h ! tp = Pending) \<and>
        (queue ?h = [] \<longrightarrow>
           promises ?h ! tp = Fulfilled Undefined \<and> terminatePromise ?h = None \<and>
           terminateResolve ?h = None \<and> id_ctr ?h = 0 \<and> worker ?h = None)"
  proof (cases "map_of (queue s) i")
    case None
    then have "?h = s" by (simp add: handleResponse_def)
    then show ?thesis using assms(2,3) d by simp
  next
    case (Some en)
    from assms(1) Some obtain p where p: "promise_of en = Some p"
      by (rule queue_ok_lookup)
    have mem: "(i, en) \<in> set (queue s)" using Some by (rule map_of_SomeD)
    with d(6) p have ne: "p \<noteq> tp" by auto
    let ?s1 = "s\<lparr>queue := AList.delete i (queue s)\<rparr>"
    let ?s2 = "settle p (outcome payload err) ?s1"
    have h: "?h = checkTerminateComplete ?s2"
      using Some p by (simp add: handleResponse_def onTaskComplete_def Let_def promise_of_Some outcome_def)
    have tp2: "promises ?s2 ! tp = Pending" "tp < length (promises ?s2)"
      using ne d(2,3) by (simp_all add: settle_other)
    have sub: "set (AList.delete i (queue s)) \<subseteq> set (queue s)"
      by (auto simp: AList.delete_eq)
    show ?thesis
    proof (cases "queue ?s2 = []")
      case True
      have "promises (checkTerminateComplete ?s2) ! tp = Fulfilled Undefined \<and>
            terminatePromise (checkTerminateComplete ?s2) = None \<and>
            terminateResolve (checkTerminateComplete ?s2) = None \<and>
            id_ctr (checkTerminateComplete ?s2) = 0 \<and>
            worker (checkTerminateComplete ?s2) = None"
        using drain_completed_fields [of ?s2 tp] assms(3) d(1) True tp2 by simp
      then show ?thesis using True by (simp add: h)
    next
      case False
      then have same: "checkTerminateComplete ?s2 = ?s2" by (rule checkTerminateComplete_nonempty)
      have "drain_ok ?s2"
        using assms(3) d sub tp2 False unfolding drain_ok_def by auto
      then show ?thesis using False tp2 assms(3) by (simp add: h same)
    qed
  qed
  then show "queue ?h \<noteq> [] \<Longrightarrow>
           drain_ok ?h \<and> terminatePromise ?h = Some tp \<and> promises ?h ! tp = Pending"
    and "queue ?h = [] \<Longrightarrow>
           promises ?h ! tp = Fulfilled Undefined \<and> terminatePromise ?h = None \<and>
           terminateResolve ?h = None \<and> id_ctr ?h = 0 \<and> worker ?h = None"
    by blast+
qed

lemma drain_handleError:
  assumes "queue_ok s" and "drain_ok s" and "terminatePromise s = Some tp"
  shows "promises (handleError e s) ! tp = Fulfilled Undefined"
    and "terminatePromise (handleError e s) = None"
    and "terminateResolve (handleError e s) = None"
    and "id_ctr (handleError e s) = 0"
    and "worker (handleError e s) = None"
proof -
  note d = drain_okD [OF assms(2,3)]
  let ?s1 = "s\<lparr>console := console s @ [(''Worker encountered an error'', Val e)]\<rparr>"
  let ?s3 = "(rejectAll e (map snd (queue s)) ?s1)\<lparr>queue := []\<rparr>"
  have "\<forall>en \<in> set (map snd (queue s)). promise_of en \<noteq> None \<and> promise_of en \<noteq> Some tp"
    using queue_entries_wellformed [OF assms(1)] d(6) by auto
  then have "promises (rejectAll e (map snd (queue s)) ?s1) ! tp = promises ?s1 ! tp"
    by (rule rejectAll_other)
  then have tp3: "promises ?s3 ! tp = Pending" "tp < length (promises ?s3)"
    using d(2,3) by simp_all
  have h: "handleError e s = checkTerminateComplete ?s3" by (rule handleError_unfold)
  note f = drain_completed_fields [of ?s3 tp]
  show "promises (handleError e s) ! tp = Fulfilled Undefined"
    unfolding h using assms(3) d(1) tp3 by (intro f(1)) simp_all
  show "terminatePromise (handleError e s) = None"
    unfolding h using assms(3) d(1) tp3 by (intro f(2)) simp_all
  show "terminateResolve (handleError e s) = None"
    unfolding h using assms(3) d(1) tp3 by (intro f(3)) simp_all
  show "id_ctr (handleError e s) = 0"
    unfolding h using assms(3) d(1) tp3 by (intro f(4)) simp_all
  show "worker (handleError e s) = None"
    unfolding h using assms(3) d(1) tp3 by (intro f(5)) simp_all
qed

lemma step_completed:
  assumes "queue s = []" and "promises s ! tp = Fulfilled Undefined"
  shows "queue (step ev s) = [] \<and> promises (step ev s) ! tp = Fulfilled Undefined"
proof (cases ev)
  case (Message m)
  then show ?thesis using assms by (cases m) (simp_all add: handleResponse_def)
next
  case (Failure e)
  then show ?thesis using assms by (simp add: handleError_done)
qed

lemma run_Cons [simp]: "run (ev # evs) s = run evs (step ev s)"
  by (simp add: run_def)

lemma run_Nil [simp]: "run [] s = s"
  by (simp add: run_def)

lemma run_completed:
  assumes "queue s = []" and "promises s ! tp = Fulfilled Undefined"
  shows "queue (run evs s) = [] \<and> promises (run evs s) ! tp = Fulfilled Undefined"
  using assms
proof (induction evs arbitrary: s)
  case Nil
  then show ?case by simp
next
  case (Cons ev evs)
  from step_completed [OF Cons.prems, of ev] show ?case
    using Cons.IH by simp
qed

lemma queue_ok_handleError: "queue_ok (handleError e s)"
  by (simp add: queue_ok_empty)

lemma step_draining:
  assumes "queue_ok s" and "drain_ok s" and "terminatePromise s = Some tp"
  shows "(queue (step ev s) \<noteq> [] \<and> queue_ok (step ev s) \<and> drain_ok (step ev s) \<and>
          terminatePromise (step ev s) = Some tp \<and> promises (step ev s) ! tp = Pending) \<or>
         (queue (step ev s) = [] \<and> promises (step ev s) ! tp = Fulfilled Undefined)"
proof (cases ev)
  case (Message m)
  show ?thesis
  proof (cases m)
    case (Response i n payload err)
    have ok: "queue_ok (handleResponse i payload err s)"
      using assms(1) by (rule queue_ok_handleResponse)
    show ?thesis
      using drain_handleResponse [OF assms, of i payload err] ok
      by (cases "queue (handleResponse i payload err s) = []") (simp_all add: Message Response)
  next
    case (EventMessage t n payload)
    then show ?thesis using assms drain_okD [OF assms(2,3)] by (simp add: Message)
  qed
next
  case (Failure e)
  then show ?thesis using drain_handleError(1) [OF assms] by simp
qed

lemma run_draining:
  assumes "queue_ok s" and "drain_ok s" and "terminatePromise s = Some tp"
  shows "promises (run evs s) ! tp =
           (if queue (run evs s) = [] then Fulfilled Undefined else Pending)"
  using assms
proof (induction evs arbitrary: s)
  case Nil
  then show ?case using drain_okD [OF Nil(2,3)] by simp
next
  case (Cons ev evs)
  from step_draining [OF Cons.prems, of ev] show ?case
  proof
    assume "queue (step ev s) \<noteq> [] \<and> queue_ok (step ev s) \<and> drain_ok (step ev s) \<and>
          terminatePromise (step ev s) = Some tp \<and> promises (step ev s) ! tp = Pending"
    then show ?thesis using Cons.IH by simp
  next
    assume "queue (step ev s) = [] \<and> promises (step ev s) ! tp = Fulfilled Undefined"
    then show ?thesis using run_completed [of "step ev s" tp evs] by simp
  qed
qed

lemma terminate_starts_draining:
  assumes "worker s = Some w" and "terminatePromise s = None" and "queue s \<noteq> []"
  shows "terminate s =
           (Awaits (length (promises s)),
            s\<lparr>promises := promises s @ [Pending],
              terminateResolve := Some (ResolveFn (length (promises s))),
              terminatePromise := Some (length (promises s))\<rparr>)"
  using assms by (simp add: terminate_def newPromise_def)

lemma entry_ok_term_update:
  "entry_ok s ke \<Longrightarrow>
   entry_ok (s\<lparr>promises := promises s @ ps, terminateResolve := r, terminatePromise := t\<rparr>) ke"
  by (rule entry_ok_grow [where ps = ps]) simp_all

lemma terminate_drain_ok:
  assumes "worker s = Some w" and "terminatePromise s = None" and "queue s \<noteq> []"
    and "queue_ok s"
  shows "queue_ok (snd (terminate s))" and "drain_ok (snd (terminate s))"
    and "terminatePromise (snd (terminate s)) = Some (length (promises s))"
proof -
  let ?s' = "s\<lparr>promises := promises s @ [Pending],
              terminateResolve := Some (ResolveFn (length (promises s))),
              terminatePromise := Some (length (promises s))\<rparr>"
  have eq: "snd (terminate s) = ?s'"
    by (simp add: terminate_starts_draining [OF assms(1,2,3)])
  have old: "entry_ok s ke" if "ke \<in> set (queue s)" for ke
    using that assms(4) by (simp add: queue_ok_def)
  show "queue_ok (snd (terminate s))"
    unfolding eq using assms(4) old by (simp add: queue_ok_def entry_ok_term_update)
  have fresh: "promise_of (snd ke) \<noteq> Some (length (promises s))" if "ke \<in> set (queue s)" for ke
    using old [OF that] by (auto simp: entry_ok_def split: option.splits)
  show "drain_ok (snd (terminate s))"
    unfolding eq using assms(1,3) fresh by (simp add: drain_ok_def)
  show "terminatePromise (snd (terminate s)) = Some (length (promises s))"
    by (simp add: eq)
qed

lemma ex_idle_eq:
  "ex_idle =
     \<lparr>worker = Some 0, terminateResolve = None, terminatePromise = None,
      queue = [], id_ctr = 1, handles = [], promises = [Fulfilled (Val 5)],
      workers = [\<lparr>listening = True, terminated = False\<rparr>],
      posted = [(0, \<lparr>mid = 1, mname = ''add'', margs = [2, 3]\<rparr>, None)],
      console = [], delivered = []\<rparr>"
  by (simp add: ex_idle_def ex_pending_eq handleResponse_def onTaskComplete_def
      checkTerminateComplete_def settle_def)

lemma queue_ok_ex_pending: "queue_ok ex_pending"
  by (simp add: ex_pending_eq queue_ok_def entry_ok_def)

subsection \<open>After the drain\<close>

lemma restored_then_attempt:
  assumes "terminatePromise s = None" and "worker s = None" and "id_ctr s = 0" and "queue s = []"
  shows "fst (attempt n transfer as s) = length (promises s)"
    and "promises (snd (attempt n transfer as s)) = promises s @ [Pending]"
    and "worker (snd (attempt n transfer as s)) = Some (length (workers s))"
    and "workers (snd (attempt n transfer as s)) =
           workers s @ [\<lparr>listening = True, terminated = False\<rparr>]"
    and "id_ctr (snd (attempt n transfer as s)) = 1"
    and "queue (snd (attempt n transfer as s)) =
           [(1, \<lparr>resolve = ResolveFn (length (promises s)),
                 reject = RejectFn (length (promises s))\<rparr>)]"
    and "posted (snd (attempt n transfer as s)) =
           posted s @ [(length (workers s), \<lparr>mid = 1, mname = n, margs = as\<rparr>, transfer)]"
  using assms attempt_admitted [OF assms(1), of n transfer as]
  by (simp_all add: getWorker_def Let_def)

lemma handleResponse_last:
  assumes "queue s = [(k, en)]"
  shows "handleResponse k payload err s =
           checkTerminateComplete
             (invoke (if err then reject en else resolve en) (Val payload) (s\<lparr>queue := []\<rparr>))"
  using assms by (simp add: handleResponse_def onTaskComplete_def)

lemma worker_okD:
  assumes "worker_ok s" and "worker s = Some w"
  shows "w < length (workers s)"
  using assms by (simp add: worker_ok_def)

lemma wf_ex_draining: "wf ex_draining"
  by (simp add: ex_draining_eq wf_def queue_ok_def entry_ok_def drain_ok_def worker_ok_def
      promise_of_def)

subsection \<open>Listeners\<close>

lemma dispatch_wse_fields [simp]:
  "worker (dispatch_wse L n v hs s) = worker s"
  "terminateResolve (dispatch_wse L n v hs s) = terminateResolve s"
  "terminatePromise (dispatch_wse L n v hs s) = terminatePromise s"
  "queue (dispatch_wse L n v hs s) = queue s"
  "id_ctr (dispatch_wse L n v hs s) = id_ctr s"
  "handles (dispatch_wse L n v hs s) = handles s"
  "promises (dispatch_wse L n v hs s) = promises s"
  "workers (dispatch_wse L n v hs s) = workers s"
  "posted (dispatch_wse L n v hs s) = posted s"
  by (induction hs arbitrary: s; simp add: Let_def split: option.splits)+

lemma dispatch_wse_delivered:
  "delivered (dispatch_wse L n v hs s) = delivered s @ map (\<lambda>h. (h, v)) hs"
  by (induction hs arbitrary: s) (simp_all add: Let_def split: option.splits)

lemma dispatch_wse_console:
  "console (dispatch_wse L n v hs s) =
     console s @ concat (map (\<lambda>h. case L h v of None \<Rightarrow> [] | Some x \<Rightarrow> [(handler_error_msg n, x)]) hs)"
  by (induction hs arbitrary: s) (simp_all add: Let_def split: option.splits)

lemma forEach_evt_delivered:
  "delivered (snd (forEach_evt L v hs s)) = delivered s @ map (\<lambda>h. (h, v)) (visited L v hs)"
  by (induction hs arbitrary: s) (simp_all add: Let_def split: option.splits)

lemma forEach_evt_throws:
  "fst (forEach_evt L v hs s) = (case visited L v hs of [] \<Rightarrow> None | xs \<Rightarrow> L (last xs) v)"
proof (induction hs arbitrary: s)
  case Nil
  then show ?case by simp
next
  case (Cons h hs)
  show ?case
  proof (cases "L h v")
    case None
    then show ?thesis using Cons by (cases "visited L v hs") (simp_all add: Let_def)
  next
    case (Some x)
    then show ?thesis by (simp add: Let_def)
  qed
qed

lemma visited_subset: "set (visited L v hs) \<subseteq> set hs"
  by (induction hs) (auto split: option.splits)

lemma visited_removeAll_keeps:
  "x \<noteq> h \<Longrightarrow> x \<in> set (visited L v hs) \<Longrightarrow> x \<in> set (visited L v (removeAll h hs))"
  by (induction hs) (auto split: option.splits if_splits)

lemma visited_removeAll_drops: "h \<notin> set (visited L v (removeAll h hs))"
  using visited_subset [of L v "removeAll h hs"] by auto

lemma visited_no_throw:
  "\<forall>h \<in> set hs. L h v = None \<Longrightarrow> visited L v hs = hs"
  by (induction hs) simp_all

lemma reached_wse_eq:
  "reached_wse L (EventMessage ''worker-sent-event'' n v) s =
     (case map_of (handles s) n of None \<Rightarrow> [] | Some hs \<Rightarrow> hs)"
  by (simp add: reached_wse_def dispatch_wse_delivered comp_def split: option.splits)

lemma reached_evt_eq:
  "reached_evt L (EventMessage ''worker-send-event'' n v) s =
     (case map_of (handles s) n of None \<Rightarrow> [] | Some hs \<Rightarrow> visited L v hs)"
  by (simp add: reached_evt_def forEach_evt_delivered comp_def split: option.splits)

lemma offWSE_lookup:
  "map_of (handles (offWSE n h s)) n' =
     (if n' = n then map_option (removeAll h) (map_of (handles s) n) else map_of (handles s) n')"
  by (simp add: offWSE_def set_delete_def update_conv' split: option.splits)

lemma offEvent_lookup:
  "map_of (handles (offEvent n h s)) n' =
     (if n' = n then map_option (removeAll h) (map_of (handles s) n) else map_of (handles s) n')"
  by (simp add: offEvent_def set_delete_def update_conv' split: option.splits)

lemma offWSE_frame: "offWSE n h s = s\<lparr>handles := handles (offWSE n h s)\<rparr>"
  by (simp add: offWSE_def split: option.splits)

lemma offEvent_frame: "offEvent n h s = s\<lparr>handles := handles (offEvent n h s)\<rparr>"
  by (simp add: offEvent_def split: option.splits)

lemma offWSE_noop:
  assumes "\<forall>hs. map_of (handles s) n = Some hs \<longrightarrow> h \<notin> set hs"
  shows "offWSE n h s = s"
  using assms by (simp add: offWSE_def set_delete_def update_triv split: option.splits)

lemma offEvent_noop:
  assumes "\<forall>hs. map_of (handles s) n = Some hs \<longrightarrow> h \<notin> set hs"
  shows "offEvent n h s = s"
  using assms by (simp add: offEvent_def set_delete_def update_triv split: option.splits)

lemma reached_wse_off:
  "reached_wse L (EventMessage ''worker-sent-event'' n v) (offWSE n h s) =
     removeAll h (reached_wse L (EventMessage ''worker-sent-event'' n v) s)"
  by (simp add: reached_wse_eq offWSE_lookup split: option.splits)

lemma reached_evt_off:
  "h \<notin> set (reached_evt L (EventMessage ''worker-send-event'' n v) (offEvent n h s))"
  "x \<noteq> h \<Longrightarrow> x \<in> set (reached_evt L (EventMessage ''worker-send-event'' n v) s) \<Longrightarrow>
     x \<in> set (reached_evt L (EventMessage ''worker-send-event'' n v) (offEvent n h s))"
  by (auto simp: reached_evt_eq offEvent_lookup visited_removeAll_drops visited_removeAll_keeps
      split: option.splits)

lemma ex_wse_eq:
  "ex_wse =
     \<lparr>worker = Some 0, terminateResolve = None, terminatePromise = None, queue = [],
      id_ctr = 0, handles = [(''count'', [0, 1])], promises = [],
      workers = [\<lparr>listening = True, terminated = False\<rparr>], posted = [],
      console = [], delivered = []\<rparr>"
  by (simp add: ex_wse_def onWSE_def getWorker_def set_add_def init_def)

lemma ex_evt_eq:
  "ex_evt =
     \<lparr>worker = Some 0, terminateResolve = None, terminatePromise = None, queue = [],
      id_ctr = 0, handles = [(''count'', [0, 1])], promises = [],
      workers = [\<lparr>listening = True, terminated = False\<rparr>], posted = [],
      console = [], delivered = []\<rparr>"
  by (simp add: ex_evt_def onEvent_def getWorker_def set_add_def init_def)

subsection \<open>Listener exceptions\<close>

text \<open>
  In the revision with \<^verbatim>\<open>onWSE\<close> every listener of the name is invoked, each exception is
  written to the console, and \<^verbatim>\<open>handleMessage\<close> returns.
\<close>

lemma dispatch_wse_contains:
  "dispatch_wse L n v hs s =
     s\<lparr>delivered := delivered s @ map (\<lambda>h. (h, v)) hs,
       console := console s @
         concat (map (\<lambda>h. case L h v of None \<Rightarrow> [] | Some x \<Rightarrow> [(handler_error_msg n, x)]) hs)\<rparr>"
  by (induction hs arbitrary: s) (simp_all add: Let_def split: option.splits)

lemma handleMessage_wse_contains:
  assumes "map_of (handles s) n = Some hs"
  shows "handleMessage_wse L (EventMessage ''worker-sent-event'' n v) s =
     s\<lparr>delivered := delivered s @ map (\<lambda>h. (h, v)) hs,
       console := console s @
         concat (map (\<lambda>h. case L h v of None \<Rightarrow> [] | Some x \<Rightarrow> [(handler_error_msg n, x)]) hs)\<rparr>"
  using assms by (simp add: dispatch_wse_contains)

subsection \<open>Transport errors\<close>

text \<open>
  \<^verbatim>\<open>handleError\<close> of \<^verbatim>\<open>src/index.ts\<close> and of the revision with \<^verbatim>\<open>onEvent\<close>: when it
  returns the registry is empty and every call that was pending is rejected with the
  error; the result is that of the spec's order (clear, then reject).
\<close>

lemma handleError_fails_all:
  assumes "queue_ok s"
  shows "queue (handleError e s) = [] \<and>
         (\<forall>ke \<in> set (queue s). \<forall>p. promise_of (snd ke) = Some p \<longrightarrow>
            promises (handleError e s) ! p = Rejected (Val e)) \<and>
         handleError e s =
           onTaskComplete
             (failAll_spec e
                (s\<lparr>console := console s @ [(''Worker encountered an error'', Val e)]\<rparr>))"
proof (intro conjI ballI allI impI)
  show "queue (handleError e s) = []" by simp
next
  fix ke p
  assume "ke \<in> set (queue s)" and "promise_of (snd ke) = Some p"
  then show "promises (handleError e s) ! p = Rejected (Val e)"
    using handleError_rejects [OF assms, of "fst ke" "snd ke" p e] by simp
next
  show "handleError e s =
           onTaskComplete
             (failAll_spec e
                (s\<lparr>console := console s @ [(''Worker encountered an error'', Val e)]\<rparr>))"
    by (rule handleError_as_failAll)
qed

lemma handleError_wse_begin_queue [simp]: "queue (handleError_wse_begin e s) = queue s"
  by (simp add: handleError_wse_begin_def Let_def)

lemma ex_error_begin_eq:
  "ex_error_begin =
     \<lparr>worker = Some 0, terminateResolve = None, terminatePromise = None,
      queue = [(1, \<lparr>resolve = ResolveFn 0, reject = RejectFn 0\<rparr>)],
      id_ctr = 1, handles = [], promises = [Rejected (Val 7)],
      workers = [\<lparr>listening = True, terminated = False\<rparr>],
      posted = [(0, \<lparr>mid = 1, mname = ''add'', margs = [2, 3]\<rparr>, None)],
      console = [(''Worker encountered an error'', Val 7)], delivered = []\<rparr>"
  by (simp add: ex_error_begin_def ex_pending_eq handleError_wse_begin_def settle_def)

lemma ex_error_retry_eq:
  "ex_error_retry =
     \<lparr>worker = Some 0, terminateResolve = None, terminatePromise = None,
      queue = [(1, \<lparr>resolve = ResolveFn 0, reject = RejectFn 0\<rparr>),
               (2, \<lparr>resolve = ResolveFn 1, reject = RejectFn 1\<rparr>)],
      id_ctr = 2, handles = [], promises = [Rejected (Val 7), Pending],
      workers = [\<lparr>listening = True, terminated = False\<rparr>],
      posted = [(0, \<lparr>mid = 1, mname = ''add'', margs = [2, 3]\<rparr>, None),
                (0, \<lparr>mid = 2, mname = ''add'', margs = [2, 3]\<rparr>, None)],
      console = [(''Worker encountered an error'', Val 7)], delivered = []\<rparr>"
  by (simp add: ex_error_retry_def ex_error_begin_eq attempt_def call_def getWorker_def
      invoke_call_def newPromise_def generateId_def)

lemma ex_error_end_eq:
  "ex_error_end =
     \<lparr>worker = Some 0, terminateResolve = None, terminatePromise = None,
      queue = [],
      id_ctr = 2, handles = [], promises = [Rejected (Val 7), Pending],
      workers = [\<lparr>listening = True, terminated = False\<rparr>],
      posted = [(0, \<lparr>mid = 1, mname = ''add'', margs = [2, 3]\<rparr>, None),
                (0, \<lparr>mid = 2, mname = ''add'', margs = [2, 3]\<rparr>, None)],
      console = [(''Worker encountered an error'', Val 7)], delivered = []\<rparr>"
  by (simp add: ex_error_end_def ex_error_retry_eq handleError_wse_resume_def onTaskComplete_def
      checkTerminateComplete_def)

subsection \<open>The identifier counter\<close>

lemma generateId_increases:
  "fst (generateId s) = id_ctr s + 1"
  "id_ctr (snd (generateId s)) = fst (generateId s)"
  "id_ctr s < fst (generateId s)"
  "0 < fst (generateId s)"
  by (simp_all add: generateId_def)

text \<open>
  Between two resets the identifiers issued are consecutive: the calls of \<open>issue\<close> post
  \<open>id + 1\<close>, \<open>id + 2\<close>, ... (\<open>issue_posted\<close>). The counter goes back to zero only in
  \<^verbatim>\<open>checkTerminateComplete\<close>, together with the teardown of the worker.
\<close>

lemma id_ctr_checkTerminateComplete:
  "id_ctr (checkTerminateComplete s) = id_ctr s \<or>
   (id_ctr (checkTerminateComplete s) = 0 \<and> worker (checkTerminateComplete s) = None)"
  by (simp add: checkTerminateComplete_def split: option.splits)

lemma id_ctr_handleMessage:
  "id_ctr (handleMessage m s) = id_ctr s \<or>
   (id_ctr (handleMessage m s) = 0 \<and> worker (handleMessage m s) = None)"
proof (cases m)
  case (Response i n payload err)
  show ?thesis
  proof (cases "map_of (queue s) i")
    case None
    then show ?thesis by (simp add: Response handleResponse_def)
  next
    case (Some en)
    let ?s2 = "(if err then invoke (reject en) (Val payload) (s\<lparr>queue := AList.delete i (queue s)\<rparr>)
                else invoke (resolve en) (Val payload) (s\<lparr>queue := AList.delete i (queue s)\<rparr>))"
    have "handleMessage m s = checkTerminateComplete ?s2"
      using Some by (simp add: Response handleResponse_def onTaskComplete_def Let_def)
    moreover have "id_ctr ?s2 = id_ctr s" by simp
    ultimately show ?thesis using id_ctr_checkTerminateComplete [of ?s2] by simp
  qed
next
  case (EventMessage t n payload)
  then show ?thesis by simp
qed

lemma id_ctr_handleError:
  "id_ctr (handleError e s) = id_ctr s \<or>
   (id_ctr (handleError e s) = 0 \<and> worker (handleError e s) = None)"
proof -
  let ?s3 = "(rejectAll e (map snd (queue s))
          (s\<lparr>console := console s @ [(''Worker encountered an error'', Val e)]\<rparr>))\<lparr>queue := []\<rparr>"
  have "id_ctr ?s3 = id_ctr s" by simp
  then show ?thesis
    using id_ctr_checkTerminateComplete [of ?s3] by (simp add: handleError_unfold)
qed

lemma id_ctr_terminate: "id_ctr (snd (terminate s)) = id_ctr s"
  by (simp add: terminate_def newPromise_def terminateWorker_def split: option.splits)

subsection \<open>Well-formed states are the reachable ones\<close>

lemma wf_init: "wf init"
  by (simp add: wf_def queue_ok_def drain_ok_def worker_ok_def init_def)

lemma worker_ok_cong:
  "worker s' = worker s \<Longrightarrow> workers s' = workers s \<Longrightarrow> worker_ok s' = worker_ok s"
  by (simp add: worker_ok_def split: option.splits)

lemma worker_ok_updates [simp]:
  "worker_ok (s\<lparr>promises := ps\<rparr>) = worker_ok s"
  "worker_ok (s\<lparr>terminateResolve := r\<rparr>) = worker_ok s"
  "worker_ok (s\<lparr>terminatePromise := tp\<rparr>) = worker_ok s"
  "worker_ok (s\<lparr>queue := q\<rparr>) = worker_ok s"
  "worker_ok (s\<lparr>id_ctr := i\<rparr>) = worker_ok s"
  "worker_ok (s\<lparr>handles := hs\<rparr>) = worker_ok s"
  "worker_ok (s\<lparr>posted := po\<rparr>) = worker_ok s"
  "worker_ok (s\<lparr>console := co\<rparr>) = worker_ok s"
  "worker_ok (s\<lparr>delivered := de\<rparr>) = worker_ok s"
  by (simp_all add: worker_ok_def split: option.splits)

lemma worker_ok_promises [simp]:
  "worker_ok (settle p st s) = worker_ok s"
  "worker_ok (invoke c v s) = worker_ok s"
  "worker_ok (rejectAll e es s) = worker_ok s"
  by (rule worker_ok_cong; simp)+

lemma worker_ok_None: "worker s = None \<Longrightarrow> worker_ok s"
  by (simp add: worker_ok_def)

lemma worker_ok_getWorker: "worker_ok s \<Longrightarrow> worker_ok (snd (getWorker s))"
  by (auto simp: worker_ok_def getWorker_def Let_def nth_append split: option.splits)

lemma worker_getWorker: "worker (snd (getWorker s)) = Some (fst (getWorker s))"
  by (simp add: getWorker_def Let_def split: option.splits)

lemma worker_ok_checkTerminateComplete:
  "worker_ok s \<Longrightarrow> worker_ok (checkTerminateComplete s)"
  by (auto simp: checkTerminateComplete_def worker_ok_None split: option.splits)

lemma drain_ok_idle:
  "terminatePromise s = None \<Longrightarrow> terminateResolve s = None \<Longrightarrow> drain_ok s"
  by (simp add: drain_ok_def)

lemma wf_attempt:
  assumes "wf s"
  shows "wf (snd (attempt n transfer as s))"
proof (cases "terminatePromise s")
  case None
  from assms have ok: "queue_ok s" and dr: "drain_ok s" and wo: "worker_ok s"
    by (simp_all add: wf_def)
  note adm = attempt_admitted [OF None, of n transfer as]
  have "terminateResolve s = None" using dr None by (simp add: drain_ok_def)
  then have "drain_ok (snd (attempt n transfer as s))"
    using adm(6,7) by (simp add: drain_ok_idle)
  moreover have "worker_ok (snd (attempt n transfer as s))"
    using worker_ok_getWorker [OF wo] adm(8,9) worker_getWorker [of s]
    by (simp add: worker_ok_cong [of "snd (attempt n transfer as s)" "snd (getWorker s)"])
  moreover have "queue_ok (snd (attempt n transfer as s))"
    using ok None by (rule queue_ok_attempt)
  ultimately show ?thesis by (simp add: wf_def)
next
  case (Some tp)
  from assms have ok: "queue_ok s" and dr: "drain_ok s" and wo: "worker_ok s"
    by (simp_all add: wf_def)
  note d = drain_okD [OF dr Some]
  from d(5) have gw: "snd (getWorker s) = s"
    by (auto simp: getWorker_def)
  let ?s' = "s\<lparr>promises := promises s @ [Rejected (Error terminating_msg)]\<rparr>"
  have eq: "snd (attempt n transfer as s) = ?s'"
    using Some by (simp add: attempt_unfold gw invoke_call_draining)
  have "queue_ok ?s'"
    using ok unfolding queue_ok_def
    by (auto intro: entry_ok_grow [where ps = "[Rejected (Error terminating_msg)]"])
  moreover have "drain_ok ?s'"
    using Some d by (simp add: drain_ok_def nth_append)
  moreover have "worker_ok ?s'"
    using wo by simp
  ultimately show ?thesis by (simp add: wf_def eq)
qed

lemma wf_handleResponse:
  assumes "wf s"
  shows "wf (handleResponse i payload err s)"
proof -
  let ?h = "handleResponse i payload err s"
  from assms have ok: "queue_ok s" and dr: "drain_ok s" and wo: "worker_ok s"
    by (simp_all add: wf_def)
  have q: "queue_ok ?h" using ok by (rule queue_ok_handleResponse)
  have w: "worker_ok ?h"
  proof (cases "map_of (queue s) i")
    case None
    then show ?thesis using wo by (simp add: handleResponse_def)
  next
    case (Some en)
    let ?s2 = "(if err then invoke (reject en) (Val payload) (s\<lparr>queue := AList.delete i (queue s)\<rparr>)
                else invoke (resolve en) (Val payload) (s\<lparr>queue := AList.delete i (queue s)\<rparr>))"
    have "worker_ok ?s2" using wo by simp
    then have "worker_ok (checkTerminateComplete ?s2)" by (rule worker_ok_checkTerminateComplete)
    then show ?thesis using Some by (simp add: handleResponse_def onTaskComplete_def Let_def)
  qed
  have d: "drain_ok ?h"
  proof (cases "terminatePromise s")
    case None
    then have r: "terminateResolve s = None" using dr by (simp add: drain_ok_def)
    have "terminatePromise ?h = None \<and> terminateResolve ?h = None"
      using None r
      by (simp add: handleResponse_def onTaskComplete_def Let_def checkTerminateComplete_idle
          split: option.splits)
    then show ?thesis by (simp add: drain_ok_idle)
  next
    case (Some tp)
    show ?thesis
    proof (cases "queue ?h = []")
      case True
      then show ?thesis using drain_handleResponse(2) [OF ok dr Some True] by (simp add: drain_ok_idle)
    next
      case False
      then show ?thesis using drain_handleResponse(1) [OF ok dr Some False] by simp
    qed
  qed
  from q d w show ?thesis by (simp add: wf_def)
qed

lemma wf_handleMessage: "wf s \<Longrightarrow> wf (handleMessage m s)"
  by (cases m) (simp_all add: wf_handleResponse)

lemma wf_handleError:
  assumes "wf s"
  shows "wf (handleError e s)"
proof -
  from assms have ok: "queue_ok s" and dr: "drain_ok s" and wo: "worker_ok s"
    by (simp_all add: wf_def)
  let ?s3 = "(rejectAll e (map snd (queue s))
          (s\<lparr>console := console s @ [(''Worker encountered an error'', Val e)]\<rparr>))\<lparr>queue := []\<rparr>"
  have h: "handleError e s = checkTerminateComplete ?s3" by (rule handleError_unfold)
  have q: "queue_ok (handleError e s)" by (rule queue_ok_handleError)
  have "worker_ok ?s3" using wo by simp
  then have w: "worker_ok (handleError e s)"
    unfolding h by (rule worker_ok_checkTerminateComplete)
  have d: "drain_ok (handleError e s)"
  proof (cases "terminatePromise s")
    case None
    then have "terminateResolve s = None" using dr by (simp add: drain_ok_def)
    then have "terminatePromise (handleError e s) = None \<and> terminateResolve (handleError e s) = None"
      using None by (simp add: h checkTerminateComplete_idle)
    then show ?thesis by (simp add: drain_ok_idle)
  next
    case (Some tp)
    then show ?thesis
      using drain_handleError(2,3) [OF ok dr Some] by (simp add: drain_ok_idle)
  qed
  from q d w show ?thesis by (simp add: wf_def)
qed

lemma wf_terminate:
  assumes "wf s"
  shows "wf (snd (terminate s))"
proof -
  from assms have ok: "queue_ok s" and dr: "drain_ok s" and wo: "worker_ok s"
    by (simp_all add: wf_def)
  show ?thesis
  proof (cases "worker s")
    case None
    then show ?thesis using assms by (simp add: terminate_def)
  next
    case (Some w)
    show ?thesis
    proof (cases "terminatePromise s")
      case (Some tp)
      then show ?thesis using assms \<open>worker s = Some w\<close> by (simp add: terminate_def)
    next
      case None
      show ?thesis
      proof (cases "queue s = []")
        case True
        have r: "terminateResolve s = None" using dr None by (simp add: drain_ok_def)
        have eq: "snd (terminate s) = terminateWorker s"
          using Some None True by (simp add: terminate_def)
        have "queue_ok (terminateWorker s)" using True by (simp add: queue_ok_empty)
        moreover have "drain_ok (terminateWorker s)" using None r by (simp add: drain_ok_idle)
        moreover have "worker_ok (terminateWorker s)" by (simp add: worker_ok_None)
        ultimately show ?thesis by (simp add: wf_def eq)
      next
        case False
        note t = terminate_drain_ok [OF Some None False ok]
        have "worker_ok (snd (terminate s))"
          using wo by (simp add: terminate_starts_draining [OF Some None False])
        with t show ?thesis by (simp add: wf_def)
      qed
    qed
  qed
qed

lemma wf_handles_update: "wf (s\<lparr>handles := hs\<rparr>) = wf s"
  by (simp add: wf_def queue_ok_def entry_ok_def drain_ok_def worker_ok_def split: option.splits)

lemma wf_getWorker:
  assumes "wf s"
  shows "wf (snd (getWorker s))"
proof -
  from assms have ok: "queue_ok s" and dr: "drain_ok s" and wo: "worker_ok s"
    by (simp_all add: wf_def)
  have "queue_ok (snd (getWorker s))"
    using ok by (simp add: queue_ok_def entry_ok_def split: option.splits)
  moreover have "drain_ok (snd (getWorker s))"
    using dr by (simp add: drain_ok_def worker_getWorker split: option.splits)
  moreover have "worker_ok (snd (getWorker s))"
    using wo by (rule worker_ok_getWorker)
  ultimately show ?thesis by (simp add: wf_def)
qed

lemma wf_listeners:
  assumes "wf s"
  shows "wf (snd (onWSE n h s))" and "wf (offWSE n h s)" and "wf (clearWSE s)"
    and "wf (snd (onEvent n h s))" and "wf (offEvent n h s)" and "wf (clearEvents k s)"
  using assms wf_getWorker [OF assms]
  by (simp_all add: onWSE_def offWSE_def clearWSE_def onEvent_def offEvent_def clearEvents_def
      split_beta Let_def wf_handles_update split: option.splits)

lemma wf_ghost_update:
  "wf (s\<lparr>delivered := d\<rparr>) = wf s"
  "wf (s\<lparr>console := c\<rparr>) = wf s"
  "wf (s\<lparr>delivered := d, console := c\<rparr>) = wf s"
  by (simp_all add: wf_def queue_ok_def entry_ok_def drain_ok_def split: option.splits)

lemma forEach_evt_state:
  "snd (forEach_evt L v hs s) = s\<lparr>delivered := delivered s @ map (\<lambda>h. (h, v)) (visited L v hs)\<rparr>"
  by (induction hs arbitrary: s) (simp_all add: Let_def split: option.splits)

lemma wf_handleMessage_wse: "wf s \<Longrightarrow> wf (handleMessage_wse L m s)"
  by (cases m) (simp_all add: wf_handleResponse dispatch_wse_contains wf_ghost_update split: option.splits)

lemma wf_handleMessage_evt: "wf s \<Longrightarrow> wf (snd (handleMessage_evt L m s))"
  by (cases m) (simp_all add: wf_handleResponse forEach_evt_state wf_ghost_update split: option.splits)

lemma reachable_wf: "reachable s \<Longrightarrow> wf s"
  by (induction rule: reachable.induct)
     (simp_all add: wf_init wf_attempt wf_handleMessage wf_handleError wf_terminate)

section \<open>The claims\<close>

subsection \<open>Responses are matched by identifier\<close>

text \<open>
  Claim C1. \<open>N\<close> calls are made one after the other on a well-formed channel that is not
  draining, before any response arrives. The request of call \<open>j\<close> carries the identifier
  \<open>id + 1 + j\<close>, and the call's promise is registered under that identifier and pending.
  Whatever the order in which the responses arrive (any list of responses with pairwise
  distinct identifiers), the promise of call \<open>j\<close> is settled by the response that carries
  \<open>id + 1 + j\<close>: fulfilled with its payload, or rejected with it when the error flag is
  set. Handling a response for identifier \<open>i\<close> leaves the registry entry of every other
  identifier as it was.
\<close>

theorem calls_settle_by_identifier:
  assumes "queue_ok s" and "terminatePromise s = None" and "distinct (map fst rs)"
  shows "(\<forall>j < length cs.
            map_of (queue (snd (issue cs s))) (id_ctr s + 1 + j) =
              Some \<lparr>resolve = ResolveFn (fst (issue cs s) ! j),
                    reject = RejectFn (fst (issue cs s) ! j)\<rparr> \<and>
            promises (snd (issue cs s)) ! (fst (issue cs s) ! j) = Pending) \<and>
         posted (snd (issue cs s)) =
           posted s @
           map (\<lambda>(j, c). (fst (getWorker s),
                           \<lparr>mid = id_ctr s + 1 + j, mname = fst c, margs = snd (snd c)\<rparr>,
                           fst (snd c)))
               (enumerate 0 cs) \<and>
         (\<forall>j < length cs. \<forall>n payload err.
            (id_ctr s + 1 + j, n, payload, err) \<in> set rs \<longrightarrow>
            promises (deliver rs (snd (issue cs s))) ! (fst (issue cs s) ! j) =
              outcome payload err) \<and>
         (\<forall>k. k \<noteq> i \<longrightarrow>
            map_of (queue (handleMessage (Response i n' payload' err') s')) k =
              map_of (queue s') k)"
proof -
  note reg = issue_registers [OF assms(1,2), of cs]
  have a: "\<forall>j < length cs.
            map_of (queue (snd (issue cs s))) (id_ctr s + 1 + j) =
              Some \<lparr>resolve = ResolveFn (fst (issue cs s) ! j),
                    reject = RejectFn (fst (issue cs s) ! j)\<rparr> \<and>
            promises (snd (issue cs s)) ! (fst (issue cs s) ! j) = Pending"
    using reg by blast
  have b: "posted (snd (issue cs s)) =
           posted s @
           map (\<lambda>(j, c). (fst (getWorker s),
                           \<lparr>mid = id_ctr s + 1 + j, mname = fst c, margs = snd (snd c)\<rparr>,
                           fst (snd c)))
               (enumerate 0 cs)"
    using assms(2) by (rule issue_posted)
  have c: "promises (deliver rs (snd (issue cs s))) ! (fst (issue cs s) ! j) = outcome payload err"
    if "j < length cs" and "(id_ctr s + 1 + j, n, payload, err) \<in> set rs" for j n payload err
  proof -
    have ok: "queue_ok (snd (issue cs s))" using reg by blast
    have look: "map_of (queue (snd (issue cs s))) (id_ctr s + 1 + j) =
              Some \<lparr>resolve = ResolveFn (fst (issue cs s) ! j),
                    reject = RejectFn (fst (issue cs s) ! j)\<rparr>"
      using a that(1) by blast
    show ?thesis
      by (rule deliver_settles [OF ok look _ assms(3) that(2)]) simp
  qed
  have d: "\<forall>k. k \<noteq> i \<longrightarrow>
            map_of (queue (handleMessage (Response i n' payload' err') s')) k =
              map_of (queue s') k"
    by (simp add: handleResponse_other)
  from a b c d show ?thesis by blast
qed

theorem calls_settle_by_identifier_witness:
  "queue_ok (init :: nat chan) \<and> terminatePromise (init :: nat chan) = None \<and>
   distinct (map fst ex_responses) \<and>
   fst (issue ex_calls init) = [0, 1, 2] \<and>
   promises (snd (issue ex_calls init)) = [Pending, Pending, Pending] \<and>
   promises (deliver ex_responses (snd (issue ex_calls init))) =
     [Fulfilled (Val 10), Fulfilled (Val 20), Rejected (Val 30)]"
proof -
  let ?I = "issue ex_calls (init :: nat chan)"
  let ?D = "deliver ex_responses (snd ?I)"
  have h1: "queue_ok (init :: nat chan)" by (rule queue_ok_init)
  have h2: "terminatePromise (init :: nat chan) = None" by (simp add: init_def)
  have h3: "distinct (map fst ex_responses)" by (simp add: ex_responses_def)
  note t = calls_settle_by_identifier [OF h1 h2 h3, of ex_calls]
  note c = t [THEN conjunct2, THEN conjunct2, THEN conjunct1, rule_format]
  have ps: "fst ?I = [0, 1, 2]"
    by (simp add: ex_calls_def attempt_def call_def getWorker_def invoke_call_def newPromise_def
      generateId_def init_def)
  have pend: "promises (snd ?I) = [Pending, Pending, Pending]"
    by (simp add: ex_calls_def attempt_def call_def getWorker_def invoke_call_def newPromise_def
      generateId_def init_def)
  have len: "length (promises ?D) = 3"
    by (simp add: ex_calls_def ex_responses_def attempt_def call_def getWorker_def invoke_call_def
      newPromise_def generateId_def init_def deliver_def handleResponse_def onTaskComplete_def
      checkTerminateComplete_def settle_def)
  have l: "0 < length ex_calls" "1 < length ex_calls" "2 < length ex_calls"
    by (simp_all add: ex_calls_def)
  have m0: "(id_ctr (init :: nat chan) + 1 + 0, ''add'', 10, False) \<in> set ex_responses"
    and m1: "(id_ctr (init :: nat chan) + 1 + 1, ''print'', 20, False) \<in> set ex_responses"
    and m2: "(id_ctr (init :: nat chan) + 1 + 2, ''throwError'', 30, True) \<in> set ex_responses"
    by (simp_all add: init_def ex_responses_def)
  have p0: "promises ?D ! 0 = Fulfilled (Val 10)"
    using c [OF l(1) m0] unfolding ps by (simp add: outcome_def)
  have p1: "promises ?D ! 1 = Fulfilled (Val 20)"
    using c [OF l(2) m1] unfolding ps by (simp add: outcome_def)
  have p2: "promises ?D ! 2 = Rejected (Val 30)"
    using c [OF l(3) m2] unfolding ps by (simp add: outcome_def)
  have "promises ?D = [Fulfilled (Val 10), Fulfilled (Val 20), Rejected (Val 30)]"
    using len p0 p1 p2 by (auto simp: list_eq_iff_nth_eq less_Suc_eq numeral_3_eq_3 numeral_2_eq_2)
  with h1 h2 h3 ps pend show ?thesis by blast
qed

subsection \<open>Calls while draining\<close>

text \<open>
  Claim C2. While a terminate promise exists, a call made through the proxy returns a new
  promise that is already rejected with the error
  \<^verbatim>\<open>Worker is terminating, cannot accept new tasks\<close>; the registry, the counter and the
  list of posted messages are the same as before. The same holds for a function obtained
  from \<^verbatim>\<open>call\<close> earlier and invoked now: only the rejected promise is added to the state.
\<close>

theorem draining_call_rejected:
  assumes "terminatePromise s \<noteq> None"
  shows "fst (attempt n transfer as s) = length (promises s) \<and>
         promises (snd (attempt n transfer as s)) =
           promises s @ [Rejected (Error ''Worker is terminating, cannot accept new tasks'')] \<and>
         queue (snd (attempt n transfer as s)) = queue s \<and>
         id_ctr (snd (attempt n transfer as s)) = id_ctr s \<and>
         posted (snd (attempt n transfer as s)) = posted s \<and>
         invoke_call c as s =
           (length (promises s),
            s\<lparr>promises := promises s @
               [Rejected (Error ''Worker is terminating, cannot accept new tasks'')]\<rparr>)"
  using assms
  by (simp add: attempt_unfold invoke_call_draining terminating_msg_def)

theorem draining_call_rejected_witness:
  "terminatePromise ex_draining \<noteq> None \<and>
   fst (attempt ''add'' None [1, 2] ex_draining) = 2 \<and>
   promises (snd (attempt ''add'' None [1, 2] ex_draining)) =
     [Pending, Pending, Rejected (Error ''Worker is terminating, cannot accept new tasks'')] \<and>
   queue (snd (attempt ''add'' None [1, 2] ex_draining)) = queue ex_draining \<and>
   id_ctr (snd (attempt ''add'' None [1, 2] ex_draining)) = 1 \<and>
   posted (snd (attempt ''add'' None [1, 2] ex_draining)) = posted ex_draining"
proof -
  have h: "terminatePromise ex_draining \<noteq> None" by (simp add: ex_draining_eq)
  show ?thesis
    using h draining_call_rejected [OF h, of "''add''" None "[1, 2]"]
    by (simp add: ex_draining_eq)
qed

subsection \<open>Transport errors in the revision with \<^verbatim>\<open>onWSE\<close>\<close>

text \<open>
  Claim C3, evaluated on the revision with \<^verbatim>\<open>onWSE\<close>, where \<^verbatim>\<open>handleError\<close> is \<^verbatim>\<open>async\<close>
  and clears the registry after an \<^verbatim>\<open>await\<close>. One call is pending when the error event
  arrives. When the handler returns to the event loop the call's promise is rejected and
  its entry is still in the registry. A call made before the handler resumes (here by
  the rejected call's reaction) gets an entry of its own; the resumed handler clears the
  registry, that entry included, without invoking its continuation; the response to that
  call is then ignored and its promise stays pending.
\<close>

theorem async_handleError_clears_late:
  "queue (handleError_wse_begin e s) = queue s \<and>
   queue ex_error_begin = [(1, \<lparr>resolve = ResolveFn 0, reject = RejectFn 0\<rparr>)] \<and>
   promises ex_error_begin = [Rejected (Val 7)] \<and>
   queue ex_error_retry =
     [(1, \<lparr>resolve = ResolveFn 0, reject = RejectFn 0\<rparr>),
      (2, \<lparr>resolve = ResolveFn 1, reject = RejectFn 1\<rparr>)] \<and>
   queue ex_error_end = [] \<and>
   promises ex_error_end = [Rejected (Val 7), Pending] \<and>
   handleMessage_wse L (Response 2 ''add'' 5 False) ex_error_end = ex_error_end"
  by (simp add: ex_error_begin_eq ex_error_retry_eq ex_error_end_eq handleResponse_def)

subsection \<open>The counter after \<^verbatim>\<open>terminate\<close>\<close>

text \<open>
  Claim C4, evaluated. One call has been made and answered, so the counter is 1 and the
  registry is empty. \<^verbatim>\<open>terminate()\<close> tears the worker down and leaves the counter at 1;
  the next call creates a new worker and its request carries the identifier 2. On no path
  does \<^verbatim>\<open>terminate\<close> itself change the counter.
\<close>

theorem terminate_idle_keeps_counter:
  "id_ctr (snd (terminate s)) = id_ctr s \<and>
   id_ctr ex_idle = 1 \<and> queue ex_idle = [] \<and>
   terminate ex_idle = (Completed, terminateWorker ex_idle) \<and>
   worker (terminateWorker ex_idle) = None \<and>
   workers (terminateWorker ex_idle) = [\<lparr>listening = False, terminated = True\<rparr>] \<and>
   id_ctr (terminateWorker ex_idle) = 1 \<and>
   worker (snd (attempt ''add'' None [1, 2] (terminateWorker ex_idle))) = Some 1 \<and>
   posted (snd (attempt ''add'' None [1, 2] (terminateWorker ex_idle))) =
     [(0, \<lparr>mid = 1, mname = ''add'', margs = [2, 3]\<rparr>, None),
      (1, \<lparr>mid = 2, mname = ''add'', margs = [1, 2]\<rparr>, None)]"
  by (simp add: id_ctr_terminate)
     (simp add: ex_idle_eq terminate_def terminateWorker_def attempt_def call_def getWorker_def
       invoke_call_def newPromise_def generateId_def)

subsection \<open>The cases of \<^verbatim>\<open>terminate\<close>\<close>

text \<open>
  Claim C5. \<^verbatim>\<open>terminate()\<close> on a channel without a worker returns at once and changes
  nothing. While draining, every further \<^verbatim>\<open>terminate()\<close> returns the existing terminate
  promise and changes nothing. With a worker and an empty registry, it tears the worker
  down within the call and returns at once. With a worker and pending calls, it returns a
  new pending promise and stores it with its resolver, leaving the worker in place; after
  any sequence of inbound messages and error events that follows, that promise is
  fulfilled if the registry is empty and pending if it is not.
\<close>

theorem terminate_cases:
  "(worker s1 = None \<longrightarrow> terminate s1 = (Completed, s1)) \<and>
   (worker s2 \<noteq> None \<and> terminatePromise s2 = Some tp \<longrightarrow>
      terminate s2 = (Awaits tp, s2) \<and>
      terminate (snd (terminate s2)) = (Awaits tp, s2)) \<and>
   (worker s3 = Some w \<and> terminatePromise s3 = None \<and> queue s3 = [] \<longrightarrow>
      terminate s3 = (Completed, terminateWorker s3) \<and>
      worker (terminateWorker s3) = None \<and>
      workers (terminateWorker s3) = (workers s3)[w := \<lparr>listening = False, terminated = True\<rparr>]) \<and>
   (worker s4 = Some w' \<and> terminatePromise s4 = None \<and> queue s4 \<noteq> [] \<and> queue_ok s4 \<longrightarrow>
      terminate s4 =
        (Awaits (length (promises s4)),
         s4\<lparr>promises := promises s4 @ [Pending],
            terminateResolve := Some (ResolveFn (length (promises s4))),
            terminatePromise := Some (length (promises s4))\<rparr>) \<and>
      (\<forall>evs. promises (run evs (snd (terminate s4))) ! length (promises s4) =
              (if queue (run evs (snd (terminate s4))) = [] then Fulfilled Undefined
               else Pending)))"
proof (intro conjI impI)
  show "terminate s1 = (Completed, s1)" if "worker s1 = None"
    using that by (simp add: terminate_def)
next
  assume a: "worker s2 \<noteq> None \<and> terminatePromise s2 = Some tp"
  then show "terminate s2 = (Awaits tp, s2)"
    by (auto simp: terminate_def)
  then show "terminate (snd (terminate s2)) = (Awaits tp, s2)"
    by simp
next
  assume a: "worker s3 = Some w \<and> terminatePromise s3 = None \<and> queue s3 = []"
  then show "terminate s3 = (Completed, terminateWorker s3)"
    by (simp add: terminate_def)
  show "worker (terminateWorker s3) = None" by simp
  show "workers (terminateWorker s3) = (workers s3)[w := \<lparr>listening = False, terminated = True\<rparr>]"
    using a by (simp add: terminateWorker_def)
next
  assume a: "worker s4 = Some w' \<and> terminatePromise s4 = None \<and> queue s4 \<noteq> [] \<and> queue_ok s4"
  then have w: "worker s4 = Some w'" and i: "terminatePromise s4 = None"
    and q: "queue s4 \<noteq> []" and ok: "queue_ok s4" by simp_all
  show "terminate s4 =
        (Awaits (length (promises s4)),
         s4\<lparr>promises := promises s4 @ [Pending],
            terminateResolve := Some (ResolveFn (length (promises s4))),
            terminatePromise := Some (length (promises s4))\<rparr>)"
    using w i q by (rule terminate_starts_draining)
  show "\<forall>evs. promises (run evs (snd (terminate s4))) ! length (promises s4) =
              (if queue (run evs (snd (terminate s4))) = [] then Fulfilled Undefined
               else Pending)"
    using run_draining [OF terminate_drain_ok [OF w i q ok]] by blast
qed

theorem terminate_cases_witness:
  "worker (init :: nat chan) = None \<and> terminate (init :: nat chan) = (Completed, init) \<and>
   (worker ex_draining \<noteq> None \<and> terminatePromise ex_draining = Some 1) \<and>
   terminate ex_draining = (Awaits 1, ex_draining) \<and>
   (worker ex_idle = Some 0 \<and> terminatePromise ex_idle = None \<and> queue ex_idle = []) \<and>
   terminate ex_idle = (Completed, terminateWorker ex_idle) \<and>
   workers (terminateWorker ex_idle) = [\<lparr>listening = False, terminated = True\<rparr>] \<and>
   (worker ex_pending = Some 0 \<and> terminatePromise ex_pending = None \<and>
    queue ex_pending \<noteq> [] \<and> queue_ok ex_pending) \<and>
   terminate ex_pending = (Awaits 1, ex_draining) \<and>
   promises (run [Message (Response 9 ''x'' 0 False)] ex_draining) ! 1 = Pending \<and>
   promises (run [Message (Response 9 ''x'' 0 False), Message (Response 1 ''add'' 5 False)]
              ex_draining) ! 1 = Fulfilled Undefined"
proof -
  have h1: "worker (init :: nat chan) = None" by (simp add: init_def)
  have h2: "worker ex_draining \<noteq> None \<and> terminatePromise ex_draining = Some 1"
    by (simp add: ex_draining_eq)
  have h3: "worker ex_idle = Some 0 \<and> terminatePromise ex_idle = None \<and> queue ex_idle = []"
    by (simp add: ex_idle_eq)
  have h4: "worker ex_pending = Some 0 \<and> terminatePromise ex_pending = None \<and>
    queue ex_pending \<noteq> [] \<and> queue_ok ex_pending"
    by (simp add: queue_ok_ex_pending) (simp add: ex_pending_eq)
  note t = terminate_cases [of "init :: nat chan" ex_draining 1 ex_idle 0 ex_pending 0]
  have c1: "terminate (init :: nat chan) = (Completed, init)" using t h1 by blast
  have c2: "terminate ex_draining = (Awaits 1, ex_draining)" using t h2 by blast
  have c3: "terminate ex_idle = (Completed, terminateWorker ex_idle) \<and>
      workers (terminateWorker ex_idle) = (workers ex_idle)[0 := \<lparr>listening = False, terminated = True\<rparr>]"
    using t h3 by blast
  have c4: "terminate ex_pending =
        (Awaits (length (promises ex_pending)),
         ex_pending\<lparr>promises := promises ex_pending @ [Pending],
            terminateResolve := Some (ResolveFn (length (promises ex_pending))),
            terminatePromise := Some (length (promises ex_pending))\<rparr>) \<and>
      (\<forall>evs. promises (run evs (snd (terminate ex_pending))) ! length (promises ex_pending) =
              (if queue (run evs (snd (terminate ex_pending))) = [] then Fulfilled Undefined
               else Pending))"
    using t h4 by blast
  have d: "snd (terminate ex_pending) = ex_draining" by (simp add: ex_draining_def)
  have l: "length (promises ex_pending) = 1" by (simp add: ex_pending_eq)
  have c4a: "terminate ex_pending = (Awaits 1, ex_draining)"
    using c4 d l by (metis prod.collapse fst_conv)
  have r: "promises (run evs ex_draining) ! 1 =
              (if queue (run evs ex_draining) = [] then Fulfilled Undefined else Pending)" for evs
    using c4 d l by simp
  have q1: "queue (run [Message (Response 9 ''x'' 0 False)] ex_draining) \<noteq> []"
    by (simp add: ex_draining_eq handleResponse_def)
  have q2: "queue (run [Message (Response 9 ''x'' 0 False), Message (Response 1 ''add'' 5 False)]
              ex_draining) = []"
    by (simp add: ex_draining_eq handleResponse_def onTaskComplete_def)
  have w3: "workers (terminateWorker ex_idle) = [\<lparr>listening = False, terminated = True\<rparr>]"
    using c3 by (simp add: ex_idle_eq)
  show ?thesis
    using h1 h2 h3 h4 c1 c2 c3 c4a w3 r [of "[Message (Response 9 ''x'' 0 False)]"]
      r [of "[Message (Response 9 ''x'' 0 False), Message (Response 1 ''add'' 5 False)]"] q1 q2
    by simp
qed

subsection \<open>Listener exceptions in the revision with \<^verbatim>\<open>onEvent\<close>\<close>

text \<open>
  Claim C6, evaluated. Two listeners are registered for \<^verbatim>\<open>count\<close> and the first throws.
  In the revision with \<^verbatim>\<open>onEvent\<close>, \<^verbatim>\<open>handleMessage\<close> ends with that exception, the second
  listener is not invoked and nothing is written to the console. In the revision with
  \<^verbatim>\<open>onWSE\<close>, on the same listeners, both are invoked, the exception is written to the
  console and \<^verbatim>\<open>handleMessage\<close> returns.
\<close>

theorem onEvent_listener_exception_escapes:
  "handleMessage_evt ex_faulty (EventMessage ''worker-send-event'' ''count'' 5) ex_evt =
     (Some (Error ''boom''), ex_evt\<lparr>delivered := [(0, 5)]\<rparr>) \<and>
   reached_evt ex_faulty (EventMessage ''worker-send-event'' ''count'' 5) ex_evt = [0] \<and>
   console (snd (handleMessage_evt ex_faulty (EventMessage ''worker-send-event'' ''count'' 5) ex_evt)) = [] \<and>
   handleMessage_wse ex_faulty (EventMessage ''worker-sent-event'' ''count'' 5) ex_wse =
     ex_wse\<lparr>delivered := [(0, 5), (1, 5)],
            console := [(handler_error_msg ''count'', Error ''boom'')]\<rparr>"
  by (simp add: ex_evt_eq ex_wse_eq ex_faulty_def reached_evt_def)

subsection \<open>Unsubscribing\<close>

text \<open>
  Claim C7. \<^verbatim>\<open>offWSE(name, handler)\<close> and \<^verbatim>\<open>offEvent(name, listener)\<close> remove that
  listener from the set stored for the name, leave the sets of all other names and every
  other field as they were, and change nothing at all when the listener is not in the set
  or the name has no set. After \<^verbatim>\<open>offWSE\<close> the dispatch of an event of that name reaches
  the listeners it reached before, in the same order, without the removed one. After
  \<^verbatim>\<open>offEvent\<close> the dispatch does not reach the removed listener and reaches every other
  listener that it reached before; when no listener of the name throws, it reaches exactly
  the remaining listeners, in order. Neither function has a path that throws.
\<close>

theorem unsubscribe_removes_listener:
  "map_of (handles (offWSE n h s)) n' =
     (if n' = n then map_option (removeAll h) (map_of (handles s) n)
      else map_of (handles s) n') \<and>
   offWSE n h s = s\<lparr>handles := handles (offWSE n h s)\<rparr> \<and>
   reached_wse L (EventMessage ''worker-sent-event'' n v) (offWSE n h s) =
     removeAll h (reached_wse L (EventMessage ''worker-sent-event'' n v) s) \<and>
   ((\<forall>hs. map_of (handles s) n = Some hs \<longrightarrow> h \<notin> set hs) \<longrightarrow> offWSE n h s = s) \<and>
   map_of (handles (offEvent n h s)) n' =
     (if n' = n then map_option (removeAll h) (map_of (handles s) n)
      else map_of (handles s) n') \<and>
   offEvent n h s = s\<lparr>handles := handles (offEvent n h s)\<rparr> \<and>
   h \<notin> set (reached_evt L (EventMessage ''worker-send-event'' n v) (offEvent n h s)) \<and>
   (\<forall>x. x \<noteq> h \<and> x \<in> set (reached_evt L (EventMessage ''worker-send-event'' n v) s) \<longrightarrow>
        x \<in> set (reached_evt L (EventMessage ''worker-send-event'' n v) (offEvent n h s))) \<and>
   ((\<forall>hs. map_of (handles s) n = Some hs \<longrightarrow> h \<notin> set hs) \<longrightarrow> offEvent n h s = s) \<and>
   (\<forall>hs. map_of (handles s) n = Some hs \<and> (\<forall>x \<in> set hs. L x v = None) \<longrightarrow>
         reached_evt L (EventMessage ''worker-send-event'' n v) (offEvent n h s) = removeAll h hs)"
proof (intro conjI)
  show "map_of (handles (offWSE n h s)) n' =
     (if n' = n then map_option (removeAll h) (map_of (handles s) n)
      else map_of (handles s) n')"
    by (rule offWSE_lookup)
  show "offWSE n h s = s\<lparr>handles := handles (offWSE n h s)\<rparr>"
    by (rule offWSE_frame)
  show "reached_wse L (EventMessage ''worker-sent-event'' n v) (offWSE n h s) =
     removeAll h (reached_wse L (EventMessage ''worker-sent-event'' n v) s)"
    by (rule reached_wse_off)
  show "(\<forall>hs. map_of (handles s) n = Some hs \<longrightarrow> h \<notin> set hs) \<longrightarrow> offWSE n h s = s"
    by (rule impI) (rule offWSE_noop)
  show "map_of (handles (offEvent n h s)) n' =
     (if n' = n then map_option (removeAll h) (map_of (handles s) n)
      else map_of (handles s) n')"
    by (rule offEvent_lookup)
  show "offEvent n h s = s\<lparr>handles := handles (offEvent n h s)\<rparr>"
    by (rule offEvent_frame)
  show "h \<notin> set (reached_evt L (EventMessage ''worker-send-event'' n v) (offEvent n h s))"
    by (rule reached_evt_off(1))
  show "\<forall>x. x \<noteq> h \<and> x \<in> set (reached_evt L (EventMessage ''worker-send-event'' n v) s) \<longrightarrow>
        x \<in> set (reached_evt L (EventMessage ''worker-send-event'' n v) (offEvent n h s))"
    by (intro allI impI, elim conjE) (rule reached_evt_off(2))
  show "(\<forall>hs. map_of (handles s) n = Some hs \<longrightarrow> h \<notin> set hs) \<longrightarrow> offEvent n h s = s"
    by (rule impI) (rule offEvent_noop)
  show "\<forall>hs. map_of (handles s) n = Some hs \<and> (\<forall>x \<in> set hs. L x v = None) \<longrightarrow>
         reached_evt L (EventMessage ''worker-send-event'' n v) (offEvent n h s) = removeAll h hs"
  proof (intro allI impI, elim conjE)
    fix hs
    assume hs: "map_of (handles s) n = Some hs" and quiet: "\<forall>x \<in> set hs. L x v = None"
    from quiet have "\<forall>x \<in> set (removeAll h hs). L x v = None" by simp
    then have "visited L v (removeAll h hs) = removeAll h hs" by (rule visited_no_throw)
    then show "reached_evt L (EventMessage ''worker-send-event'' n v) (offEvent n h s) =
                 removeAll h hs"
      using hs by (simp add: reached_evt_eq offEvent_lookup)
  qed
qed

theorem unsubscribe_removes_listener_witness:
  "handles (offWSE ''count'' 0 ex_wse) = [(''count'', [1])] \<and>
   reached_wse (\<lambda>h v. None) (EventMessage ''worker-sent-event'' ''count'' 5) ex_wse = [0, 1] \<and>
   reached_wse (\<lambda>h v. None) (EventMessage ''worker-sent-event'' ''count'' 5)
     (offWSE ''count'' 0 ex_wse) = [1] \<and>
   offWSE ''count'' 7 ex_wse = ex_wse \<and>
   offWSE ''nonexistent'' 0 ex_wse = ex_wse \<and>
   handles (offEvent ''count'' 0 ex_evt) = [(''count'', [1])] \<and>
   reached_evt (\<lambda>h v. None) (EventMessage ''worker-send-event'' ''count'' 5) ex_evt = [0, 1] \<and>
   1 \<in> set (reached_evt (\<lambda>h v. None) (EventMessage ''worker-send-event'' ''count'' 5)
              (offEvent ''count'' 0 ex_evt)) \<and>
   0 \<notin> set (reached_evt (\<lambda>h v. None) (EventMessage ''worker-send-event'' ''count'' 5)
              (offEvent ''count'' 0 ex_evt)) \<and>
   offEvent ''count'' 7 ex_evt = ex_evt \<and>
   offEvent ''nonexistent'' 0 ex_evt = ex_evt \<and>
   reached_evt (\<lambda>h v. None) (EventMessage ''worker-send-event'' ''count'' 5)
     (offEvent ''count'' 0 ex_evt) = [1]"
proof -
  let ?L = "\<lambda>(h::nat) (v::nat). None :: nat jsval option"
  note t0 = unsubscribe_removes_listener [of "''count''" 0 ex_wse "''count''" ?L 5]
  note t7 = unsubscribe_removes_listener [of "''count''" 7 ex_wse "''count''" ?L 5]
  note tn = unsubscribe_removes_listener [of "''nonexistent''" 0 ex_wse "''count''" ?L 5]
  note e0 = unsubscribe_removes_listener [of "''count''" 0 ex_evt "''count''" ?L 5]
  note e7 = unsubscribe_removes_listener [of "''count''" 7 ex_evt "''count''" ?L 5]
  note en = unsubscribe_removes_listener [of "''nonexistent''" 0 ex_evt "''count''" ?L 5]
  have hw: "handles ex_wse = [(''count'', [0, 1])]" by (simp add: ex_wse_eq)
  have he: "handles ex_evt = [(''count'', [0, 1])]" by (simp add: ex_evt_eq)
  have r0: "reached_wse ?L (EventMessage ''worker-sent-event'' ''count'' 5) ex_wse = [0, 1]"
    by (simp add: reached_wse_eq hw)
  have q0: "reached_evt ?L (EventMessage ''worker-send-event'' ''count'' 5) ex_evt = [0, 1]"
    by (simp add: reached_evt_eq he)
  have 1: "handles (offWSE ''count'' 0 ex_wse) = [(''count'', [1])]"
    by (simp add: offWSE_def hw set_delete_def)
  have 2: "reached_wse ?L (EventMessage ''worker-sent-event'' ''count'' 5)
     (offWSE ''count'' 0 ex_wse) = [1]"
    using t0 [THEN conjunct2, THEN conjunct2, THEN conjunct1] by (simp add: r0)
  have n7: "\<forall>hs. map_of (handles ex_wse) ''count'' = Some hs \<longrightarrow> 7 \<notin> set hs"
    and nn: "\<forall>hs. map_of (handles ex_wse) ''nonexistent'' = Some hs \<longrightarrow> 0 \<notin> set hs"
    by (simp_all add: hw)
  have 3: "offWSE ''count'' 7 ex_wse = ex_wse"
    using t7 [THEN conjunct2, THEN conjunct2, THEN conjunct2, THEN conjunct1] n7 by (rule mp)
  have 4: "offWSE ''nonexistent'' 0 ex_wse = ex_wse"
    using tn [THEN conjunct2, THEN conjunct2, THEN conjunct2, THEN conjunct1] nn by (rule mp)
  have 5: "handles (offEvent ''count'' 0 ex_evt) = [(''count'', [1])]"
    by (simp add: offEvent_def he set_delete_def)
  have "1 \<noteq> (0::nat) \<and> 1 \<in> set (reached_evt ?L (EventMessage ''worker-send-event'' ''count'' 5) ex_evt)"
    by (simp add: q0)
  with e0 [THEN conjunct2, THEN conjunct2, THEN conjunct2, THEN conjunct2, THEN conjunct2, THEN conjunct2, THEN conjunct2, THEN conjunct1] have 6: "1 \<in> set (reached_evt ?L (EventMessage ''worker-send-event'' ''count'' 5)
              (offEvent ''count'' 0 ex_evt))"
    by blast
  have 7: "0 \<notin> set (reached_evt ?L (EventMessage ''worker-send-event'' ''count'' 5)
              (offEvent ''count'' 0 ex_evt))"
    by (rule e0 [THEN conjunct2, THEN conjunct2, THEN conjunct2, THEN conjunct2, THEN conjunct2, THEN conjunct2, THEN conjunct1])
  have m7: "\<forall>hs. map_of (handles ex_evt) ''count'' = Some hs \<longrightarrow> 7 \<notin> set hs"
    and mn: "\<forall>hs. map_of (handles ex_evt) ''nonexistent'' = Some hs \<longrightarrow> 0 \<notin> set hs"
    by (simp_all add: he)
  have 8: "offEvent ''count'' 7 ex_evt = ex_evt"
    using e7 [THEN conjunct2, THEN conjunct2, THEN conjunct2, THEN conjunct2, THEN conjunct2, THEN conjunct2, THEN conjunct2, THEN conjunct2, THEN conjunct1] m7 by (rule mp)
  have 9: "offEvent ''nonexistent'' 0 ex_evt = ex_evt"
    using en [THEN conjunct2, THEN conjunct2, THEN conjunct2, THEN conjunct2, THEN conjunct2, THEN conjunct2, THEN conjunct2, THEN conjunct2, THEN conjunct1] mn by (rule mp)
  have "map_of (handles ex_evt) ''count'' = Some [0, 1] \<and>
        (\<forall>x \<in> set [0, 1::nat]. ?L x 5 = None)"
    by (simp add: he)
  with e0 [THEN conjunct2, THEN conjunct2, THEN conjunct2, THEN conjunct2, THEN conjunct2, THEN conjunct2, THEN conjunct2, THEN conjunct2, THEN conjunct2, rule_format, of "[0, 1]"]
  have 10: "reached_evt ?L (EventMessage ''worker-send-event'' ''count'' 5)
     (offEvent ''count'' 0 ex_evt) = [1]"
    by simp
  from r0 q0 1 2 3 4 5 6 7 8 9 10 show ?thesis by blast
qed

subsection \<open>Responses that match no pending call\<close>

text \<open>
  Claim C8. A response whose identifier is not in the pending-call registry leaves the whole
  state as it was, in each of the three revisions of \<^verbatim>\<open>handleMessage\<close>: no continuation is
  invoked (the promises are the same), the two registries, the counter and the shutdown
  fields are the same, and nothing is written to the console or thrown.
\<close>

theorem unmatched_response_ignored:
  "map_of (queue s) i = None \<Longrightarrow>
     handleMessage (Response i n payload err) s = s \<and>
     handleMessage_wse L (Response i n payload err) s = s \<and>
     handleMessage_evt L (Response i n payload err) s = (None, s)"
  by (simp add: handleResponse_def)

theorem unmatched_response_ignored_witness:
  "map_of (queue ex_pending) 7 = None \<and>
   handleMessage (Response 7 ''add'' 5 False) ex_pending = ex_pending \<and>
   handleMessage_wse (\<lambda>h v. None) (Response 7 ''add'' 5 False) ex_pending = ex_pending \<and>
   handleMessage_evt (\<lambda>h v. None) (Response 7 ''add'' 5 False) ex_pending = (None, ex_pending)"
proof -
  have h: "map_of (queue ex_pending) 7 = None" by (simp add: ex_pending_eq)
  show ?thesis
    using h unmatched_response_ignored [OF h, of "''add''" 5 False "\<lambda>h v. None"] by simp
qed

subsection \<open>The read-only proxy\<close>

text \<open>
  Claim C9. For every property name and every value, assigning through the proxy throws
  the error \<^verbatim>\<open>Cannot set properties on typed worker proxy\<close> and leaves the state, and with
  it the result of every later property read, as it was.
\<close>

theorem proxy_set_throws:
  "proxy_set prop v s = (Some (Error ''Cannot set properties on typed worker proxy''), s) \<and>
   proxy_get q (snd (proxy_set prop v s)) = proxy_get q s \<and>
   proxy_get_wse q (snd (proxy_set prop v s)) = proxy_get_wse q s \<and>
   proxy_get_evt q (snd (proxy_set prop v s)) = proxy_get_evt q s"
  by (simp add: proxy_set_def readonly_msg_def)

subsection \<open>The state after the drain\<close>

text \<open>
  Claim C10. The channel is draining and one call is pending. When its response arrives,
  \<^verbatim>\<open>checkTerminateComplete\<close> first clears the terminate promise and its resolver, sets the
  counter to zero, detaches and terminates the worker and clears the handle, and only
  then invokes the resolver, inside the same call of \<^verbatim>\<open>handleMessage\<close>; the same happens
  when an error event fails the calls that are pending. So whoever awaits the terminate
  promise runs in a state where all of this has been done: a call made there is admitted
  (its promise is pending and registered), the factory is asked for a new worker, and the
  request posted to that worker carries the identifier 1.
\<close>

theorem drain_completion_restores_state:
  assumes "wf s" and "terminatePromise s = Some tp" and "worker s = Some w"
    and "(queue s = [(k, en)] \<and> s' = handleMessage (Response k n payload err) s \<and>
          s0 = invoke (if err then reject en else resolve en) (Val payload) (s\<lparr>queue := []\<rparr>)) \<or>
         (s' = handleError e s \<and>
          s0 = (rejectAll e (map snd (queue s))
                 (s\<lparr>console := console s @ [(''Worker encountered an error'', Val e)]\<rparr>))
               \<lparr>queue := []\<rparr>)"
  shows "s' = invoke (ResolveFn tp) Undefined
                (terminateWorker
                   (s0\<lparr>terminateResolve := None, terminatePromise := None, id_ctr := 0\<rparr>)) \<and>
         promises s0 ! tp = Pending \<and>
         promises s' ! tp = Fulfilled Undefined \<and>
         terminatePromise s' = None \<and> terminateResolve s' = None \<and> id_ctr s' = 0 \<and>
         worker s' = None \<and> queue s' = [] \<and>
         workers s' = (workers s)[w := \<lparr>listening = False, terminated = True\<rparr>] \<and>
         fst (attempt n2 transfer as s') = length (promises s) \<and>
         promises (snd (attempt n2 transfer as s')) ! length (promises s) = Pending \<and>
         queue (snd (attempt n2 transfer as s')) =
           [(1, \<lparr>resolve = ResolveFn (length (promises s)),
                 reject = RejectFn (length (promises s))\<rparr>)] \<and>
         worker (snd (attempt n2 transfer as s')) = Some (length (workers s)) \<and>
         length (workers s) \<noteq> w \<and>
         workers (snd (attempt n2 transfer as s')) =
           (workers s)[w := \<lparr>listening = False, terminated = True\<rparr>] @
           [\<lparr>listening = True, terminated = False\<rparr>] \<and>
         posted (snd (attempt n2 transfer as s')) =
           posted s @ [(length (workers s), \<lparr>mid = 1, mname = n2, margs = as\<rparr>, transfer)]"
proof -
  from assms(1) have ok: "queue_ok s" and dr: "drain_ok s" and wo: "worker_ok s"
    by (simp_all add: wf_def)
  note d = drain_okD [OF dr assms(2)]
  have s0: "s' = checkTerminateComplete s0 \<and> queue s0 = [] \<and> promises s0 ! tp = Pending \<and>
            tp < length (promises s0) \<and> terminatePromise s0 = Some tp \<and>
            terminateResolve s0 = Some (ResolveFn tp) \<and> worker s0 = Some w \<and>
            workers s0 = workers s \<and> posted s0 = posted s \<and>
            length (promises s0) = length (promises s)"
    using assms(4)
  proof
    assume a: "queue s = [(k, en)] \<and> s' = handleMessage (Response k n payload err) s \<and>
          s0 = invoke (if err then reject en else resolve en) (Val payload) (s\<lparr>queue := []\<rparr>)"
    then have q: "queue s = [(k, en)]" by simp
    from ok q obtain p where p: "promise_of en = Some p"
      by (auto simp: queue_ok_def entry_ok_def split: option.splits)
    with d(6) q have ne: "p \<noteq> tp" by auto
    have s0_eq: "s0 = settle p (outcome payload err) (s\<lparr>queue := []\<rparr>)"
      using a p by (simp add: promise_of_Some outcome_def)
    have "promises s0 ! tp = Pending"
      unfolding s0_eq using ne d(3) by (simp add: settle_other)
    moreover have "s' = checkTerminateComplete s0"
      using a by (simp add: handleResponse_last [OF q])
    ultimately show ?thesis
      using assms(2,3) d(1,2) by (simp add: s0_eq)
  next
    assume a: "s' = handleError e s \<and>
          s0 = (rejectAll e (map snd (queue s))
                 (s\<lparr>console := console s @ [(''Worker encountered an error'', Val e)]\<rparr>))
               \<lparr>queue := []\<rparr>"
    have "\<forall>en \<in> set (map snd (queue s)). promise_of en \<noteq> None \<and> promise_of en \<noteq> Some tp"
      using queue_entries_wellformed [OF ok] d(6) by auto
    then have "promises (rejectAll e (map snd (queue s))
                 (s\<lparr>console := console s @ [(''Worker encountered an error'', Val e)]\<rparr>)) ! tp =
               promises (s\<lparr>console := console s @ [(''Worker encountered an error'', Val e)]\<rparr>) ! tp"
      by (rule rejectAll_other)
    then have "promises s0 ! tp = Pending" using a d(3) by simp
    moreover have "s' = checkTerminateComplete s0"
      using a by (simp add: handleError_unfold)
    ultimately show ?thesis
      using a assms(2,3) d(1,2) by simp
  qed
  then have c: "s' = checkTerminateComplete s0" and q0: "queue s0 = []"
    and p0: "promises s0 ! tp = Pending" and l0: "tp < length (promises s0)"
    and t0: "terminatePromise s0 = Some tp" and r0: "terminateResolve s0 = Some (ResolveFn tp)"
    and w0: "worker s0 = Some w" and ws0: "workers s0 = workers s" and po0: "posted s0 = posted s"
    and len0: "length (promises s0) = length (promises s)"
    by simp_all
  have 1: "s' = invoke (ResolveFn tp) Undefined
                (terminateWorker
                   (s0\<lparr>terminateResolve := None, terminatePromise := None, id_ctr := 0\<rparr>))"
    unfolding c using t0 r0 q0 by (rule checkTerminateComplete_completes)
  note f = drain_completed_fields [OF t0 r0 q0 l0 p0, folded c]
  have ws: "workers s' = (workers s)[w := \<lparr>listening = False, terminated = True\<rparr>]"
    using f(6) w0 ws0 by simp
  have q': "queue s' = []" using q0 by (simp add: c)
  have po': "posted s' = posted s"
    using po0 by (simp add: 1)
  have len': "length (promises s') = length (promises s)"
    using len0 by (simp add: 1)
  note a = restored_then_attempt [OF f(2) f(5) f(4) q', of n2 transfer as]
  have fresh: "length (workers s) \<noteq> w"
    using worker_okD [OF wo assms(3)] by simp
  have 10: "fst (attempt n2 transfer as s') = length (promises s)"
    using a(1) len' by simp
  have 11: "promises (snd (attempt n2 transfer as s')) ! length (promises s) = Pending"
    using a(2) len' by (simp add: nth_append)
  have 12: "queue (snd (attempt n2 transfer as s')) =
           [(1, \<lparr>resolve = ResolveFn (length (promises s)),
                 reject = RejectFn (length (promises s))\<rparr>)]"
    using a(6) len' by simp
  have 13: "worker (snd (attempt n2 transfer as s')) = Some (length (workers s))"
    using a(3) ws by simp
  have 14: "workers (snd (attempt n2 transfer as s')) =
           (workers s)[w := \<lparr>listening = False, terminated = True\<rparr>] @
           [\<lparr>listening = True, terminated = False\<rparr>]"
    using a(4) ws by simp
  have 15: "posted (snd (attempt n2 transfer as s')) =
           posted s @ [(length (workers s), \<lparr>mid = 1, mname = n2, margs = as\<rparr>, transfer)]"
    using a(7) ws po' by simp
  from 1 p0 f(1,2,3,4,5) q' ws 10 11 12 13 fresh 14 15 show ?thesis by blast
qed

theorem drain_completion_restores_state_witness:
  "wf ex_draining \<and> terminatePromise ex_draining = Some 1 \<and> worker ex_draining = Some 0 \<and>
   queue ex_draining = [(1, \<lparr>resolve = ResolveFn 0, reject = RejectFn 0\<rparr>)] \<and>
   handleMessage (Response 1 ''add'' 5 False) ex_draining =
     \<lparr>worker = None, terminateResolve = None, terminatePromise = None, queue = [],
      id_ctr = 0, handles = [], promises = [Fulfilled (Val 5), Fulfilled Undefined],
      workers = [\<lparr>listening = False, terminated = True\<rparr>],
      posted = [(0, \<lparr>mid = 1, mname = ''add'', margs = [2, 3]\<rparr>, None)],
      console = [], delivered = []\<rparr> \<and>
   fst (attempt ''add'' None [1, 2] (handleMessage (Response 1 ''add'' 5 False) ex_draining)) = 2 \<and>
   posted (snd (attempt ''add'' None [1, 2]
                 (handleMessage (Response 1 ''add'' 5 False) ex_draining))) =
     [(0, \<lparr>mid = 1, mname = ''add'', margs = [2, 3]\<rparr>, None),
      (1, \<lparr>mid = 1, mname = ''add'', margs = [1, 2]\<rparr>, None)]"
proof -
  let ?s' = "handleMessage (Response 1 ''add'' 5 False) ex_draining"
  let ?s0 = "invoke (if False then reject \<lparr>resolve = ResolveFn 0, reject = RejectFn 0\<rparr>
                     else resolve \<lparr>resolve = ResolveFn 0, reject = RejectFn 0\<rparr>)
               (Val 5) (ex_draining\<lparr>queue := []\<rparr>)"
  have h1: "wf ex_draining" by (rule wf_ex_draining)
  have h2: "terminatePromise ex_draining = Some 1" by (simp add: ex_draining_eq)
  have h3: "worker ex_draining = Some 0" by (simp add: ex_draining_eq)
  have q: "queue ex_draining = [(1, \<lparr>resolve = ResolveFn 0, reject = RejectFn 0\<rparr>)]"
    by (simp add: ex_draining_eq)
  have h4: "(queue ex_draining = [(1, \<lparr>resolve = ResolveFn 0, reject = RejectFn 0\<rparr>)] \<and>
             ?s' = handleMessage (Response 1 ''add'' 5 False) ex_draining \<and> ?s0 = ?s0) \<or>
            (?s' = handleError 0 ex_draining \<and>
             ?s0 = (rejectAll 0 (map snd (queue ex_draining))
                 (ex_draining\<lparr>console := console ex_draining @
                    [(''Worker encountered an error'', Val 0)]\<rparr>))\<lparr>queue := []\<rparr>)"
    using q by simp
  note t = drain_completion_restores_state [OF h1 h2 h3 h4, of "''add''" None "[1, 2]"]
  have e: "?s' =
     \<lparr>worker = None, terminateResolve = None, terminatePromise = None, queue = [],
      id_ctr = 0, handles = [], promises = [Fulfilled (Val 5), Fulfilled Undefined],
      workers = [\<lparr>listening = False, terminated = True\<rparr>],
      posted = [(0, \<lparr>mid = 1, mname = ''add'', margs = [2, 3]\<rparr>, None)],
      console = [], delivered = []\<rparr>"
    by (simp add: ex_draining_eq handleResponse_def onTaskComplete_def checkTerminateComplete_def
        terminateWorker_def settle_def)
  have l: "length (promises ex_draining) = 2" "length (workers ex_draining) = 1"
    "posted ex_draining = [(0, \<lparr>mid = 1, mname = ''add'', margs = [2, 3]\<rparr>, None)]"
    by (simp_all add: ex_draining_eq)
  from t have "fst (attempt ''add'' None [1, 2] ?s') = length (promises ex_draining)"
    by blast
  then have a1: "fst (attempt ''add'' None [1, 2] ?s') = 2"
    by (simp only: l)
  from t have "posted (snd (attempt ''add'' None [1, 2] ?s')) =
           posted ex_draining @
           [(length (workers ex_draining), \<lparr>mid = 1, mname = ''add'', margs = [1, 2]\<rparr>, None)]"
    by blast
  then have a2: "posted (snd (attempt ''add'' None [1, 2] ?s')) =
     [(0, \<lparr>mid = 1, mname = ''add'', margs = [2, 3]\<rparr>, None),
      (1, \<lparr>mid = 1, mname = ''add'', margs = [1, 2]\<rparr>, None)]"
    by (simp only: l append.simps)
  from h1 h2 h3 q e a1 a2 show ?thesis by blast
qed

end
